theory Spec2Isabelle
  imports Complex_Main "HOL-Library.Word" "HOL-Library.Signed_Division"
begin

section \<open>C integers and run-time faults\<close>

text \<open>
  Both programs are C. An \<^verbatim>\<open>int\<close> is a 32-bit word and a \<^verbatim>\<open>long long\<close> a 64-bit
  word, both read as two's complement by \<open>sint\<close>. What the C standard leaves undefined
  is a fault of the model: a remainder by zero, a store or load through a pointer that
  does not point to a block, an index outside a block, and a signed addition,
  multiplication or increment whose mathematical result does not fit its type. A faulting
  operation returns \<open>Inl\<close> of the fault, and every caller passes it on, so a run that
  meets it ends there. The one exception is the product \<open>i * i\<close> in the loop condition of
  \<^verbatim>\<open>is_prime\<close>: it has the value that the compiled program computes, the product
  modulo \<open>2\<^sup>6\<^sup>4\<close>, which is the product itself whenever that is a \<^verbatim>\<open>long long\<close>.
\<close>

type_synonym c_int = "32 word"

type_synonym c_llong = "64 word"

datatype fault = NullDeref | OutOfBounds | SignedOverflow | DivisionByZero

definition in_int :: "int \<Rightarrow> bool" where
  "in_int v = (- (2 ^ 31) \<le> v \<and> v < 2 ^ 31)"

definition in_llong :: "int \<Rightarrow> bool" where
  "in_llong v = (- (2 ^ 63) \<le> v \<and> v < 2 ^ 63)"

text \<open>Sequencing: the second computation runs on the value of the first unless that faulted.\<close>

definition seq :: "fault + 'a \<Rightarrow> ('a \<Rightarrow> fault + 'b) \<Rightarrow> fault + 'b" where
  "seq m f = (case m of Inl e \<Rightarrow> Inl e | Inr v \<Rightarrow> f v)"

text \<open>\<^verbatim>\<open>a * b\<close>, \<^verbatim>\<open>a + b\<close> and \<^verbatim>\<open>a % b\<close> on \<^verbatim>\<open>int\<close>. The remainder truncates towards zero
  (\<open>smod\<close>), as C's does.\<close>

definition mul_int :: "c_int \<Rightarrow> c_int \<Rightarrow> fault + c_int" where
  "mul_int a b = (if in_int (sint a * sint b) then Inr (a * b) else Inl SignedOverflow)"

definition add_int :: "c_int \<Rightarrow> c_int \<Rightarrow> fault + c_int" where
  "add_int a b = (if in_int (sint a + sint b) then Inr (a + b) else Inl SignedOverflow)"

definition rem_int :: "c_int \<Rightarrow> c_int \<Rightarrow> fault + c_int" where
  "rem_int a b =
     (if b = 0 then Inl DivisionByZero
      else if \<not> in_int (sint a sdiv sint b) then Inl SignedOverflow
      else Inr (word_of_int (sint a smod sint b)))"

text \<open>\<^verbatim>\<open>a % b\<close> and \<^verbatim>\<open>a++\<close> on \<^verbatim>\<open>long long\<close>.\<close>

definition rem_llong :: "c_llong \<Rightarrow> c_llong \<Rightarrow> fault + c_llong" where
  "rem_llong a b =
     (if b = 0 then Inl DivisionByZero
      else if \<not> in_llong (sint a sdiv sint b) then Inl SignedOverflow
      else Inr (word_of_int (sint a smod sint b)))"

definition inc_llong :: "c_llong \<Rightarrow> fault + c_llong" where
  "inc_llong a = (if in_llong (sint a + 1) then Inr (a + 1) else Inl SignedOverflow)"

section \<open>The C library, as far as the programs use it\<close>

text \<open>
  The programs call \<^verbatim>\<open>malloc\<close>, \<^verbatim>\<open>rand\<close>, \<^verbatim>\<open>clock\<close> and \<^verbatim>\<open>printf\<close>. None of them is
  part of the repository, so a run is taken relative to an environment that fixes what the
  library answers: whether the \<open>k\<close>-th call of \<^verbatim>\<open>malloc\<close> succeeds, the content found in
  freshly allocated \<^verbatim>\<open>int\<close> cells, the value of the \<open>k\<close>-th call of \<^verbatim>\<open>rand\<close>, the reading
  of the \<open>k\<close>-th call of \<^verbatim>\<open>clock\<close> and the macro \<^verbatim>\<open>CLOCKS_PER_SEC\<close>. Clock readings are
  integers and the elapsed time is their exact quotient: the rounding of \<^verbatim>\<open>double\<close> is
  not modelled.
\<close>

record libc =
  malloc_ok :: "nat \<Rightarrow> bool"
  junk :: c_int
  rand_val :: "nat \<Rightarrow> c_int"
  clock_val :: "nat \<Rightarrow> int"
  CLOCKS_PER_SEC :: int

text \<open>A call of \<^verbatim>\<open>printf\<close> is kept as its format string and its arguments; standard output
  is the list of the calls made. A run ends by returning from \<^verbatim>\<open>main\<close> or by a fault.\<close>

datatype printf_arg = IntArg c_int | DoubleArg real

type_synonym printf_call = "string \<times> printf_arg list"

datatype status = Exited c_int | Crashed fault

record outcome =
  stdout :: "printf_call list"
  status :: status

section \<open>task2.c: counting primes in a fixed range\<close>

text \<open>
  \<^verbatim>\<open>for (long long i = 2; i * i <= n; i++) { if (n % i == 0) return 0; } return 1;\<close>
  The loop is entered at index \<open>i\<close>: the condition compares the product \<open>i * i\<close> of
  64-bit words with \<open>n\<close> as signed numbers, the body computes the remainder, the step the
  increment.
\<close>

function is_prime_loop :: "c_llong \<Rightarrow> c_llong \<Rightarrow> fault + c_int" where
  "is_prime_loop n i =
     (if i * i \<le>s n then
        (case rem_llong n i of
           Inl e \<Rightarrow> Inl e
         | Inr r \<Rightarrow>
             if r = 0 then Inr 0
             else (case inc_llong i of
                     Inl e \<Rightarrow> Inl e
                   | Inr i' \<Rightarrow> is_prime_loop n i'))
      else Inr 1)"
  by pat_completeness auto
termination
proof (relation "measure (\<lambda>(n, i). nat (2 ^ 63 - sint i))")
  show "wf (measure (\<lambda>(n :: c_llong, i :: c_llong). nat (2 ^ 63 - sint i)))"
    by simp
next
  fix n i :: c_llong and r i' :: c_llong
  assume "inc_llong i = Inr i'"
  then have in_range: "in_llong (sint i + 1)" and i': "i' = i + 1"
    by (auto simp: inc_llong_def split: if_splits)
  from in_range have "sint (i + 1) = sint i + 1"
    by (simp add: in_llong_def sint_word_ariths signed_take_bit_int_eq_self_iff)
  with in_range i' show "((n, i'), (n, i)) \<in> measure (\<lambda>(n, i). nat (2 ^ 63 - sint i))"
    by (simp add: in_llong_def)
qed

definition is_prime :: "c_llong \<Rightarrow> fault + c_int" where
  "is_prime n = (if n <s 2 then Inr 0 else is_prime_loop n 2)"

text \<open>
  The state of \<^verbatim>\<open>main\<close>: the counter, and the log of the arguments \<^verbatim>\<open>is_prime\<close> was
  called with, in the order of the calls. The log is not a variable of the program; it
  records which candidates were tested.
\<close>

record counter =
  count :: c_int
  tested :: "c_llong list"

definition range_start :: c_llong where
  "range_start = 90000000000"

definition range_end :: c_llong where
  "range_end = 90000100000"

text \<open>
  \<^verbatim>\<open>for (long long i = start; i <= end; i++) { if (is_prime(i)) { count++; } }\<close>
  with \<open>range_start\<close> and \<open>range_end\<close> for the constants \<^verbatim>\<open>start\<close> and \<^verbatim>\<open>end\<close> of
  \<^verbatim>\<open>main\<close>.
\<close>

function count_loop :: "c_llong \<Rightarrow> c_llong \<Rightarrow> counter \<Rightarrow> fault + counter" where
  "count_loop i end_v st =
     (if i \<le>s end_v then
        (case is_prime i of
           Inl e \<Rightarrow> Inl e
         | Inr p \<Rightarrow>
             (case (if p \<noteq> 0 then add_int (count st) 1 else Inr (count st)) of
                Inl e \<Rightarrow> Inl e
              | Inr c \<Rightarrow>
                  (case inc_llong i of
                     Inl e \<Rightarrow> Inl e
                   | Inr i' \<Rightarrow> count_loop i' end_v \<lparr>count = c, tested = tested st @ [i]\<rparr>)))
      else Inr st)"
  by pat_completeness auto
termination
proof (relation "measure (\<lambda>(i, end_v, st). nat (sint end_v + 1 - sint i))")
  show "wf (measure (\<lambda>(i :: c_llong, end_v :: c_llong, st :: counter).
              nat (sint end_v + 1 - sint i)))"
    by simp
next
  fix i end_v :: c_llong and st :: counter and p c :: c_int and i' :: c_llong
  assume le: "i \<le>s end_v" and "inc_llong i = Inr i'"
  then have in_range: "in_llong (sint i + 1)" and i': "i' = i + 1"
    by (auto simp: inc_llong_def split: if_splits)
  from in_range have "sint (i + 1) = sint i + 1"
    by (simp add: in_llong_def sint_word_ariths signed_take_bit_int_eq_self_iff)
  with le i'
  show "((i', end_v, \<lparr>count = c, tested = tested st @ [i]\<rparr>), (i, end_v, st))
          \<in> measure (\<lambda>(i, end_v, st). nat (sint end_v + 1 - sint i))"
    by (simp add: word_sle_eq)
qed

text \<open>The counting part of \<^verbatim>\<open>main\<close>, from \<^verbatim>\<open>count = 0\<close> to the end of the loop.\<close>

definition count_primes :: "fault + counter" where
  "count_primes = count_loop range_start range_end \<lparr>count = 0, tested = []\<rparr>"

text \<open>\<^verbatim>\<open>main\<close> of task2.c. The two calls of \<^verbatim>\<open>clock\<close> are the first and the second of
  the run.\<close>

definition main_task2 :: "libc \<Rightarrow> outcome" where
  "main_task2 env =
     (case count_primes of
        Inl e \<Rightarrow> \<lparr>stdout = [], status = Crashed e\<rparr>
      | Inr st \<Rightarrow>
          let begin_t = clock_val env 0;
              finish = clock_val env 1;
              elapsed = real_of_int (finish - begin_t) / real_of_int (CLOCKS_PER_SEC env)
          in \<lparr>stdout = [(''Found %d primes in %.3f seconds\<newline>'',
                          [IntArg (count st), DoubleArg elapsed])],
              status = Exited 0\<rparr>)"

section \<open>task.c: the matrix benchmark\<close>

text \<open>
  \<^verbatim>\<open>#define N 500\<close>. The functions below take the side length as an argument, and
  \<^verbatim>\<open>main\<close> calls them with \<open>N\<close>. The loop counters \<^verbatim>\<open>i\<close>, \<^verbatim>\<open>j\<close>, \<^verbatim>\<open>k\<close> are
  natural numbers: they run from \<open>0\<close> to the side length.
\<close>

definition N :: nat where
  "N = 500"

text \<open>
  A pointer is either unusable (\<open>None\<close>: the null pointer that a failed \<^verbatim>\<open>malloc\<close>
  returns, or the indeterminate content of a fresh cell) or it points to a block of cells
  (\<open>Some\<close> of their contents). The program stores each pointer it gets from \<^verbatim>\<open>malloc\<close>
  in one place and never copies it, so a block is kept with the one pointer to it, and the
  blocks of different allocations are different blocks.
\<close>

type_synonym int_ptr = "c_int list option"

type_synonym int_ptr_ptr = "int_ptr list option"

record memory =
  A :: int_ptr_ptr
  B :: int_ptr_ptr
  C :: int_ptr_ptr
  mallocs :: nat
  rands :: nat

text \<open>\<^verbatim>\<open>p[i]\<close> read and \<^verbatim>\<open>p[i] = v\<close>.\<close>

definition load :: "'a list option \<Rightarrow> nat \<Rightarrow> fault + 'a" where
  "load p i =
     (case p of
        None \<Rightarrow> Inl NullDeref
      | Some xs \<Rightarrow> if i < length xs then Inr (xs ! i) else Inl OutOfBounds)"

definition store :: "'a list option \<Rightarrow> nat \<Rightarrow> 'a \<Rightarrow> fault + 'a list option" where
  "store p i v =
     (case p of
        None \<Rightarrow> Inl NullDeref
      | Some xs \<Rightarrow> if i < length xs then Inr (Some (xs[i := v])) else Inl OutOfBounds)"

text \<open>\<^verbatim>\<open>m[i][j]\<close> read and \<^verbatim>\<open>m[i][j] = v\<close>: the row pointer is loaded from the table,
  then the cell is accessed through it.\<close>

definition load2 :: "int_ptr_ptr \<Rightarrow> nat \<Rightarrow> nat \<Rightarrow> fault + c_int" where
  "load2 m i j = seq (load m i) (\<lambda>row. load row j)"

definition store2 :: "int_ptr_ptr \<Rightarrow> nat \<Rightarrow> nat \<Rightarrow> c_int \<Rightarrow> fault + int_ptr_ptr" where
  "store2 m i j v =
     seq (load m i) (\<lambda>row. seq (store row j v) (\<lambda>row'. store m i row'))"

text \<open>\<^verbatim>\<open>malloc\<close> of a block whose fresh content would be \<open>fresh\<close>, and \<^verbatim>\<open>rand()\<close>: each
  call takes the next answer of the environment.\<close>

definition malloc :: "libc \<Rightarrow> 'a list \<Rightarrow> memory \<Rightarrow> 'a list option \<times> memory" where
  "malloc env fresh st =
     (if malloc_ok env (mallocs st) then Some fresh else None,
      st\<lparr>mallocs := Suc (mallocs st)\<rparr>)"

definition rand :: "libc \<Rightarrow> memory \<Rightarrow> c_int \<times> memory" where
  "rand env st = (rand_val env (rands st), st\<lparr>rands := Suc (rands st)\<rparr>)"

text \<open>\<^verbatim>\<open>for (i = lo; i < hi; ++i) body\<close>, stopping at the first fault.\<close>

function for_loop :: "nat \<Rightarrow> nat \<Rightarrow> (nat \<Rightarrow> 's \<Rightarrow> fault + 's) \<Rightarrow> 's \<Rightarrow> fault + 's" where
  "for_loop i hi body st =
     (if i < hi then
        (case body i st of
           Inl e \<Rightarrow> Inl e
         | Inr st' \<Rightarrow> for_loop (Suc i) hi body st')
      else Inr st)"
  by pat_completeness auto
termination
  by (relation "measure (\<lambda>(i, hi, body, st). hi - i)") auto

text \<open>Lines 11 to 13: the three tables of row pointers. No result is checked.\<close>

definition alloc_tables :: "nat \<Rightarrow> libc \<Rightarrow> memory" where
  "alloc_tables n env =
     (let st0 = \<lparr>A = None, B = None, C = None, mallocs = 0, rands = 0\<rparr>;
          (a, st1) = malloc env (replicate n None) st0;
          (b, st2) = malloc env (replicate n None) st1;
          (c, st3) = malloc env (replicate n None) st2
      in st3\<lparr>A := a, B := b, C := c\<rparr>)"

text \<open>Lines 20 to 22:
  \<^verbatim>\<open>A[i][j] = rand() % 10; B[i][j] = rand() % 10; C[i][j] = 0;\<close>\<close>

definition fill_cell :: "libc \<Rightarrow> nat \<Rightarrow> nat \<Rightarrow> memory \<Rightarrow> fault + memory" where
  "fill_cell env i j st =
     (let (r1, st1) = rand env st in
      seq (rem_int r1 10) (\<lambda>v1.
      seq (store2 (A st1) i j v1) (\<lambda>a.
      let (r2, st2) = rand env (st1\<lparr>A := a\<rparr>) in
      seq (rem_int r2 10) (\<lambda>v2.
      seq (store2 (B st2) i j v2) (\<lambda>b.
      seq (store2 (C st2) i j 0) (\<lambda>c.
      Inr (st2\<lparr>B := b, C := c\<rparr>)))))))"

text \<open>Lines 16 to 23: the three rows of index \<open>i\<close> are allocated and stored in the
  tables, again unchecked, then their cells are filled.\<close>

definition fill_row :: "nat \<Rightarrow> libc \<Rightarrow> nat \<Rightarrow> memory \<Rightarrow> fault + memory" where
  "fill_row n env i st =
     (let (p, st1) = malloc env (replicate n (junk env)) st in
      seq (store (A st1) i p) (\<lambda>a.
      let (q, st2) = malloc env (replicate n (junk env)) (st1\<lparr>A := a\<rparr>) in
      seq (store (B st2) i q) (\<lambda>b.
      let (r, st3) = malloc env (replicate n (junk env)) (st2\<lparr>B := b\<rparr>) in
      seq (store (C st3) i r) (\<lambda>c.
      for_loop 0 n (fill_cell env i) (st3\<lparr>C := c\<rparr>)))))"

text \<open>Lines 11 to 24: allocation and filling, everything before the timed part.\<close>

definition fill :: "nat \<Rightarrow> libc \<Rightarrow> fault + memory" where
  "fill n env = for_loop 0 n (fill_row n env) (alloc_tables n env)"

text \<open>Line 30: \<^verbatim>\<open>C[i][j] += A[i][k] * B[k][j];\<close>\<close>

definition mac :: "nat \<Rightarrow> nat \<Rightarrow> nat \<Rightarrow> memory \<Rightarrow> fault + memory" where
  "mac i j k st =
     seq (load2 (A st) i k) (\<lambda>a.
     seq (load2 (B st) k j) (\<lambda>b.
     seq (mul_int a b) (\<lambda>p.
     seq (load2 (C st) i j) (\<lambda>c.
     seq (add_int c p) (\<lambda>s.
     seq (store2 (C st) i j s) (\<lambda>c'.
     Inr (st\<lparr>C := c'\<rparr>)))))))"

text \<open>Lines 27 to 30: the timed triple loop.\<close>

definition multiply :: "nat \<Rightarrow> memory \<Rightarrow> fault + memory" where
  "multiply n st =
     for_loop 0 n (\<lambda>i. for_loop 0 n (\<lambda>j. for_loop 0 n (\<lambda>k. mac i j k))) st"

text \<open>Lines 11 to 30 with \<open>N\<close> for the side length: the memory when the second clock
  reading is taken.\<close>

definition run_task :: "libc \<Rightarrow> fault + memory" where
  "run_task env = seq (fill N env) (multiply N)"

text \<open>\<^verbatim>\<open>main\<close> of task.c. The first call of \<^verbatim>\<open>clock\<close> follows the filling, the second
  follows the triple loop; nothing is printed before the last statement.\<close>

definition main_task :: "libc \<Rightarrow> outcome" where
  "main_task env =
     (case run_task env of
        Inl e \<Rightarrow> \<lparr>stdout = [], status = Crashed e\<rparr>
      | Inr st \<Rightarrow>
          let start = clock_val env 0;
              end_t = clock_val env 1;
              elapsed = real_of_int (end_t - start) / real_of_int (CLOCKS_PER_SEC env)
          in \<lparr>stdout = [(''Elapsed time: %.4f\<newline>'', [DoubleArg elapsed])],
              status = Exited 0\<rparr>)"

section \<open>Notions used to state the properties\<close>

subsection \<open>Matrices\<close>

text \<open>The entry \<open>(i, j)\<close> of a matrix, for the cells that can be read.\<close>

definition entry :: "int_ptr_ptr \<Rightarrow> nat \<Rightarrow> nat \<Rightarrow> c_int" where
  "entry m i j = (case load2 m i j of Inr v \<Rightarrow> v | Inl e \<Rightarrow> 0)"

text \<open>A table of \<open>n\<close> row pointers whose first \<open>r\<close> rows are allocated, with \<open>n\<close> cells
  each.\<close>

definition rows_ok :: "nat \<Rightarrow> nat \<Rightarrow> int_ptr_ptr \<Rightarrow> bool" where
  "rows_ok n r m =
     (case m of
        None \<Rightarrow> False
      | Some rows \<Rightarrow>
          length rows = n \<and>
          (\<forall>i < r. case rows ! i of None \<Rightarrow> False | Some row \<Rightarrow> length row = n))"

text \<open>What \<^verbatim>\<open>rand() % 10\<close> stores when \<^verbatim>\<open>rand\<close> answers \<open>r\<close>.\<close>

definition digit :: "c_int \<Rightarrow> c_int" where
  "digit r = word_of_int (sint r smod 10)"

text \<open>
  The memory during the filling: \<open>r\<close> rows of each matrix are allocated after
  \<open>3 + 3 * r\<close> calls of \<^verbatim>\<open>malloc\<close>, and the cells before \<open>(i, j)\<close> in row-major order
  hold what the fill statements stored, the \<open>k\<close>-th answer of \<^verbatim>\<open>rand\<close> going to
  \<^verbatim>\<open>A\<close> for even \<open>k\<close> and to \<^verbatim>\<open>B\<close> for odd \<open>k\<close>.
\<close>

definition filled_upto :: "nat \<Rightarrow> libc \<Rightarrow> nat \<Rightarrow> nat \<Rightarrow> nat \<Rightarrow> memory \<Rightarrow> bool" where
  "filled_upto n env r i j s =
     (mallocs s = 3 + 3 * r \<and> rands s = 2 * (i * n + j) \<and>
      rows_ok n r (A s) \<and> rows_ok n r (B s) \<and> rows_ok n r (C s) \<and>
      (\<forall>i' j'. j' < n \<and> (i' < i \<or> (i' = i \<and> j' < j)) \<longrightarrow>
         entry (A s) i' j' = digit (rand_val env (2 * (i' * n + j'))) \<and>
         entry (B s) i' j' = digit (rand_val env (2 * (i' * n + j') + 1)) \<and>
         entry (C s) i' j' = 0))"

text \<open>The sum of the first \<open>m\<close> products of row \<open>i\<close> of \<^verbatim>\<open>A\<close> and column \<open>j\<close> of \<^verbatim>\<open>B\<close>,
  over the integers.\<close>

definition dot :: "nat \<Rightarrow> memory \<Rightarrow> nat \<Rightarrow> nat \<Rightarrow> int" where
  "dot m st i j = (\<Sum>k<m. sint (entry (A st) i k) * sint (entry (B st) k j))"

definition small_entries :: "nat \<Rightarrow> memory \<Rightarrow> bool" where
  "small_entries n st =
     (\<forall>i<n. \<forall>j<n. \<bar>sint (entry (A st) i j)\<bar> \<le> 9 \<and> \<bar>sint (entry (B st) i j)\<bar> \<le> 9)"

text \<open>
  The memory during the triple loop started in \<open>st0\<close>: \<^verbatim>\<open>A\<close> and \<^verbatim>\<open>B\<close> are those of
  \<open>st0\<close>, the cells of \<^verbatim>\<open>C\<close> before \<open>(i, j)\<close> hold their full sum, the cell \<open>(i, j)\<close>
  holds the sum of its first \<open>k\<close> products, the cells after it hold \<open>0\<close>.
\<close>

definition product_upto :: "nat \<Rightarrow> memory \<Rightarrow> nat \<Rightarrow> nat \<Rightarrow> nat \<Rightarrow> memory \<Rightarrow> bool" where
  "product_upto n st0 i j k s =
     (A s = A st0 \<and> B s = B st0 \<and> rows_ok n n (C s) \<and>
      (\<forall>i'<n. \<forall>j'<n. sint (entry (C s) i' j') =
         (if i' < i \<or> (i' = i \<and> j' < j) then dot n st0 i' j'
          else if i' = i \<and> j' = j then dot k st0 i j else 0)))"

text \<open>
  Two environments. In the first every allocation succeeds, \<^verbatim>\<open>rand\<close> answers
  1, 5, 2, 6, 3, 7, 4, 8 and then 0 for ever, and the clock advances by 2500 ticks per
  reading at a million ticks per second. The second differs in that the first call of
  \<^verbatim>\<open>malloc\<close>, the one for the table \<^verbatim>\<open>A\<close>, fails.
\<close>

definition env_2x2 :: libc where
  "env_2x2 = \<lparr>malloc_ok = (\<lambda>k. True), junk = 77,
      rand_val = (\<lambda>k. if k < 8 then [1, 5, 2, 6, 3, 7, 4, 8] ! k else 0),
      clock_val = (\<lambda>k. 1000 + 2500 * int k), CLOCKS_PER_SEC = 1000000\<rparr>"

definition env_first_null :: libc where
  "env_first_null = env_2x2\<lparr>malloc_ok := (\<lambda>k. k \<noteq> 0)\<rparr>"

subsection \<open>Primes\<close>

text \<open>A prime number: greater than one, with no divisor but one and itself.\<close>

definition prime_nat :: "nat \<Rightarrow> bool" where
  "prime_nat p = (1 < p \<and> (\<forall>d. d dvd p \<longrightarrow> d = 1 \<or> d = p))"

text \<open>Some \<open>d\<close> from 2 upward with \<open>d * d \<le> n\<close> divides \<open>n\<close>: what the trial division looks
  for.\<close>

definition has_small_divisor :: "int \<Rightarrow> bool" where
  "has_small_divisor n = (\<exists>d. 2 \<le> d \<and> d * d \<le> n \<and> d dvd n)"

text \<open>The largest \<^verbatim>\<open>long long\<close> whose square is a \<^verbatim>\<open>long long\<close>:
  \<open>3037000499\<^sup>2 < 2\<^sup>6\<^sup>3 \<le> 3037000500\<^sup>2\<close>.\<close>

definition sqrt_limit :: int where
  "sqrt_limit = 3037000499"

text \<open>An index whose square modulo \<open>2\<^sup>6\<^sup>4\<close> is \<open>2\<^sup>6\<^sup>3 - 7\<close>: the loop condition fails
  there for every smaller \<open>n\<close>.\<close>

definition exit_index :: c_llong where
  "exit_index = 2759374635167858507"

text \<open>
  The indices at which the loop of \<^verbatim>\<open>is_prime n\<close> is entered: 2 when \<open>n\<close> is not below 2,
  and the successor of an index at which the condition held and the remainder was not zero.
\<close>

inductive visits :: "c_llong \<Rightarrow> c_llong \<Rightarrow> bool" for n :: c_llong where
  first: "\<not> n <s 2 \<Longrightarrow> visits n 2"
| step: "visits n i \<Longrightarrow> i * i \<le>s n \<Longrightarrow>
         rem_llong n i = Inr r \<Longrightarrow> r \<noteq> 0 \<Longrightarrow> inc_llong i = Inr i' \<Longrightarrow> visits n i'"

section \<open>Machine arithmetic\<close>

text \<open>The recursive equations are unfolded by hand; the list of all candidates is never
  written out.\<close>

declare is_prime_loop.simps [simp del] count_loop.simps [simp del] for_loop.simps [simp del]

declare upto_rec_numeral [simp del]

text \<open>An operation that passes its range check computes on the words what it computes on
  the integers.\<close>

lemma sint_mul_llong:
  "in_llong (sint a * sint b) \<Longrightarrow> sint (a * b :: c_llong) = sint a * sint b"
  by (simp add: in_llong_def sint_word_ariths signed_take_bit_int_eq_self_iff)

lemma sint_inc_llong:
  "in_llong (sint a + 1) \<Longrightarrow> sint (a + 1 :: c_llong) = sint a + 1"
  by (simp add: in_llong_def sint_word_ariths signed_take_bit_int_eq_self_iff)

lemma in_llong_sint: "in_llong (sint (a :: c_llong))"
  using sint_ge [of a] sint_lt [of a] by (simp add: in_llong_def)

lemma in_llong_below:
  assumes "0 \<le> v" "v \<le> sint (n :: c_llong)"
  shows "in_llong v"
  using assms in_llong_sint [of n] by (simp add: in_llong_def)

lemma square_in_llong_iff:
  assumes "0 \<le> i"
  shows "in_llong (i * i) \<longleftrightarrow> i \<le> sqrt_limit"
proof
  assume "in_llong (i * i)"
  show "i \<le> sqrt_limit"
  proof (rule ccontr)
    assume "\<not> i \<le> sqrt_limit"
    then have "3037000500 \<le> i" by (simp add: sqrt_limit_def)
    then have "3037000500 * 3037000500 \<le> i * i" by (intro mult_mono) auto
    with \<open>in_llong (i * i)\<close> show False by (simp add: in_llong_def)
  qed
next
  assume "i \<le> sqrt_limit"
  with assms have "i * i \<le> sqrt_limit * sqrt_limit" by (intro mult_mono) auto
  then have upper: "i * i < 2 ^ 63" by (simp add: sqrt_limit_def)
  have "- (2 ^ 63) \<le> (0 :: int)" by simp
  also have "0 \<le> i * i" by simp
  finally show "in_llong (i * i)" using upper by (simp add: in_llong_def)
qed

lemma sint_word_of_int_llong:
  "in_llong k \<Longrightarrow> sint (word_of_int k :: c_llong) = k"
  by (simp add: in_llong_def sint_sbintrunc' signed_take_bit_int_eq_self_iff)

text \<open>For a dividend that is not negative and a positive divisor the truncating remainder is
  the usual one, and it is zero exactly when the divisor divides.\<close>

lemma rem_llong_pos:
  assumes "0 \<le> sint n" "0 < sint i"
  shows "rem_llong n i = Inr (word_of_int (sint n mod sint i))"
    and "word_of_int (sint n mod sint i) = (0 :: c_llong) \<longleftrightarrow> sint i dvd sint n"
proof -
  from assms have nz: "i \<noteq> 0" by auto
  have sd: "sint n sdiv sint i = sint n div sint i"
    using assms by (simp add: signed_divide_int_def sgn_if)
  have sm: "sint n smod sint i = sint n mod sint i"
    using assms by (simp add: signed_modulo_int_def sgn_if)
  have "0 \<le> sint n div sint i" using assms by (simp add: pos_imp_zdiv_nonneg_iff)
  moreover have "sint n div sint i \<le> sint n"
    using assms int_div_le_self [of "sint n" "sint i"] by (cases "sint n = 0") auto
  ultimately have "in_llong (sint n div sint i)"
    using in_llong_sint [of n] by (simp add: in_llong_def)
  with nz sd sm show "rem_llong n i = Inr (word_of_int (sint n mod sint i))"
    by (simp add: rem_llong_def)
  have r: "0 \<le> sint n mod sint i" "sint n mod sint i < sint i"
    using assms by simp_all
  have "in_llong (sint n mod sint i)"
    using r in_llong_sint [of i] by (simp add: in_llong_def)
  then have "sint (word_of_int (sint n mod sint i) :: c_llong) = sint n mod sint i"
    by (rule sint_word_of_int_llong)
  then have "word_of_int (sint n mod sint i) = (0 :: c_llong) \<longleftrightarrow> sint n mod sint i = 0"
    by auto
  then show "word_of_int (sint n mod sint i) = (0 :: c_llong) \<longleftrightarrow> sint i dvd sint n"
    by (simp add: dvd_eq_mod_eq_0)
qed

section \<open>Trial division\<close>

text \<open>A number from 2 upward has a divisor \<open>d\<close> with \<open>d * d \<le> n\<close> exactly when it is not
  prime: of two factors the smaller one has its square below the product.\<close>

lemma has_small_divisor_iff:
  assumes "2 \<le> n"
  shows "has_small_divisor n \<longleftrightarrow> \<not> prime_nat (nat n)"
proof
  assume "has_small_divisor n"
  then obtain d where d: "2 \<le> d" "d * d \<le> n" "d dvd n"
    by (auto simp: has_small_divisor_def)
  from d(1) have "d * 2 \<le> d * d" by (intro mult_left_mono) auto
  with d(2) have "d + d \<le> n" by simp
  with d(1) have "d < n" by simp
  moreover from d(1,3) assms have "nat d dvd nat n"
    by (simp add: nat_dvd_iff)
  ultimately have "nat d dvd nat n \<and> nat d \<noteq> 1 \<and> nat d \<noteq> nat n"
    using d(1) by auto
  then show "\<not> prime_nat (nat n)" by (auto simp: prime_nat_def)
next
  assume "\<not> prime_nat (nat n)"
  with assms obtain d where d: "d dvd nat n" "d \<noteq> 1" "d \<noteq> nat n"
    by (auto simp: prime_nat_def)
  then obtain e where e: "nat n = d * e" by (auto simp: dvd_def)
  from assms have "nat n \<noteq> 0" by simp
  with e have "d \<noteq> 0" "e \<noteq> 0" by auto
  with d e have d2: "2 \<le> d" and e2: "2 \<le> e" by (cases d; cases e; auto)+
  define m where "m = min d e"
  have m2: "2 \<le> m" using d2 e2 by (simp add: m_def)
  have "m dvd nat n" using e by (auto simp: m_def min_def)
  moreover have "m * m \<le> d * e"
    by (rule mult_mono) (auto simp: m_def)
  ultimately have "m dvd nat n" and "m * m \<le> nat n" using e by simp_all
  then have "int m dvd int (nat n)" and "int (m * m) \<le> int (nat n)"
    by (simp_all only: int_dvd_int_iff of_nat_le_iff)
  moreover have "int (nat n) = n" using assms by simp
  ultimately have "2 \<le> int m \<and> int m * int m \<le> n \<and> int m dvd n"
    using m2 by simp
  then show "has_small_divisor n" unfolding has_small_divisor_def by blast
qed


text \<open>
  The loop entered at \<open>i\<close> when nothing from 2 up to \<open>i - 1\<close> divides \<open>n\<close>, for an \<open>n\<close>
  that has a divisor with its square at most \<open>n\<close>, or that lies below the square of the
  limit: by induction along the loop. The index stays at most the limit, so no product
  wraps around, and the loop ends at the divisor or past the square root.
\<close>

lemma is_prime_loop_small:
  assumes "2 \<le> sint i"
    and "(sint i - 1) * (sint i - 1) \<le> sint n"
    and "\<forall>d. 2 \<le> d \<and> d < sint i \<longrightarrow> \<not> d dvd sint n"
    and "has_small_divisor (sint n) \<or> sint n < sqrt_limit * sqrt_limit"
  shows "is_prime_loop n i = Inr (if has_small_divisor (sint n) then 0 else 1)"
  using assms
proof (induction n i rule: is_prime_loop.induct)
  case (1 n i)
  have npos: "0 \<le> sint n"
    using "1.prems"(2) by (meson order_trans zero_le_square)
  have ile: "sint i \<le> sqrt_limit"
  proof (cases "has_small_divisor (sint n)")
    case True
    then obtain d where d: "2 \<le> d" "d * d \<le> sint n" "d dvd sint n"
      by (auto simp: has_small_divisor_def)
    from d(1,3) "1.prems"(3) have "sint i \<le> d" by (meson not_le)
    moreover have "in_llong (d * d)" using d(2) by (rule in_llong_below [rotated]) simp
    with d(1) have "d \<le> sqrt_limit" by (simp add: square_in_llong_iff)
    ultimately show ?thesis by simp
  next
    case False
    with "1.prems"(4) have below: "sint n < sqrt_limit * sqrt_limit" by simp
    show ?thesis
    proof (rule ccontr)
      assume "\<not> sint i \<le> sqrt_limit"
      then have "sqrt_limit \<le> sint i - 1" by simp
      then have "sqrt_limit * sqrt_limit \<le> (sint i - 1) * (sint i - 1)"
        by (intro mult_mono) (auto simp: sqrt_limit_def)
      with "1.prems"(2) below show False by simp
    qed
  qed
  with "1.prems"(1) have in_sq: "in_llong (sint i * sint i)"
    by (simp add: square_in_llong_iff)
  then have sq: "sint (i * i) = sint i * sint i" by (rule sint_mul_llong)
  show ?case
  proof (cases "sint i * sint i \<le> sint n")
    case False
    then have cond: "\<not> i * i \<le>s n" by (simp add: word_sle_eq sq)
    have "d < sint i" if "2 \<le> d" "d * d \<le> sint n" for d
    proof (rule ccontr)
      assume "\<not> d < sint i"
      then have "sint i \<le> d" by simp
      with "1.prems"(1) have "sint i * sint i \<le> d * d" by (intro mult_mono) auto
      with that(2) False show False by simp
    qed
    with "1.prems"(3) have "\<not> has_small_divisor (sint n)"
      by (auto simp: has_small_divisor_def)
    with cond show ?thesis by (subst is_prime_loop.simps) simp
  next
    case le: True
    then have cond: "i * i \<le>s n" by (simp add: word_sle_eq sq)
    have ipos: "0 < sint i" using "1.prems"(1) by simp
    note rem = rem_llong_pos [OF npos ipos]
    show ?thesis
    proof (cases "sint i dvd sint n")
      case True
      then have "has_small_divisor (sint n)"
        using le "1.prems"(1) by (auto simp: has_small_divisor_def)
      with True show ?thesis
        by (subst is_prime_loop.simps) (simp add: cond rem)
    next
      case False
      have inc_ok: "in_llong (sint i + 1)"
        using ile ipos by (simp add: in_llong_def sqrt_limit_def)
      then have inc: "inc_llong i = Inr (i + 1)" by (simp add: inc_llong_def)
      have si: "sint (i + 1) = sint i + 1" using inc_ok by (rule sint_inc_llong)
      have nz: "word_of_int (sint n mod sint i) \<noteq> (0 :: c_llong)"
        using False rem(2) by simp
      have "is_prime_loop n (i + 1) = Inr (if has_small_divisor (sint n) then 0 else 1)"
      proof (rule "1.IH" [OF cond rem(1) nz inc])
        show "2 \<le> sint (i + 1)" using "1.prems"(1) si by simp
        show "(sint (i + 1) - 1) * (sint (i + 1) - 1) \<le> sint n" using le si by simp
        show "\<forall>d. 2 \<le> d \<and> d < sint (i + 1) \<longrightarrow> \<not> d dvd sint n"
        proof (intro allI impI)
          fix d assume "2 \<le> d \<and> d < sint (i + 1)"
          then have "d < sint i \<or> d = sint i" and "2 \<le> d" using si by auto
          then show "\<not> d dvd sint n" using "1.prems"(3) False by auto
        qed
        show "has_small_divisor (sint n) \<or> sint n < sqrt_limit * sqrt_limit"
          by (fact "1.prems"(4))
      qed
      then show ?thesis
        by (subst is_prime_loop.simps) (simp add: cond rem(1) nz inc)
    qed
  qed
qed

text \<open>
  The loop for a prime \<open>n\<close> above the exit index and below \<open>2\<^sup>6\<^sup>3 - 7\<close>. No index below
  \<open>n\<close> divides \<open>n\<close>, so the loop goes on while its condition holds, wrapped product or
  not; at the exit index, if not before, the condition fails, and the loop returns 1.
\<close>

lemma exit_index_facts:
  "sint exit_index = 2759374635167858507"
  "sint (exit_index * exit_index) = 9223372036854775801"
  by (simp_all add: exit_index_def)

lemma is_prime_loop_large:
  assumes "prime_nat (nat (sint n))"
    and "2 \<le> sint i" and "sint i \<le> sint exit_index"
    and "sint exit_index < sint n" and "sint n < 9223372036854775801"
  shows "is_prime_loop n i = Inr 1"
  using assms
proof (induction n i rule: is_prime_loop.induct)
  case (1 n i)
  show ?case
  proof (cases "i * i \<le>s n")
    case False
    then show ?thesis by (subst is_prime_loop.simps) simp
  next
    case cond: True
    have "\<not> exit_index * exit_index \<le>s n"
      using "1.prems"(5) by (simp add: word_sle_eq exit_index_facts)
    with cond have "i \<noteq> exit_index" by auto
    then have "sint i \<noteq> sint exit_index" by (auto dest: signed_word_eqI)
    with "1.prems"(3) have lt: "sint i < sint exit_index" by simp
    have npos: "0 \<le> sint n" and ipos: "0 < sint i" and below: "sint i < sint n"
      using "1.prems"(2,4) lt by simp_all
    note rem = rem_llong_pos [OF npos ipos]
    have "\<not> sint i dvd sint n"
    proof
      assume "sint i dvd sint n"
      with npos ipos have "nat (sint i) dvd nat (sint n)" by (simp add: nat_dvd_iff)
      with "1.prems"(1) have "nat (sint i) = 1 \<or> nat (sint i) = nat (sint n)"
        by (simp add: prime_nat_def)
      with "1.prems"(2) below show False by auto
    qed
    then have nz: "word_of_int (sint n mod sint i) \<noteq> (0 :: c_llong)"
      using rem(2) by simp
    have inc_ok: "in_llong (sint i + 1)"
      using lt ipos by (simp add: in_llong_def exit_index_facts)
    then have inc: "inc_llong i = Inr (i + 1)" by (simp add: inc_llong_def)
    have si: "sint (i + 1) = sint i + 1" using inc_ok by (rule sint_inc_llong)
    have "is_prime_loop n (i + 1) = Inr 1"
      using "1.prems" lt si by (intro "1.IH" [OF cond rem(1) nz inc]) simp_all
    then show ?thesis
      by (subst is_prime_loop.simps) (simp add: cond rem(1) nz inc)
  qed
qed

text \<open>The seven numbers from \<open>2\<^sup>6\<^sup>3 - 7\<close> to \<open>2\<^sup>6\<^sup>3 - 1\<close> are divisible by 157, 2, 3, 2, 5,
  2 and 7.\<close>

lemma top_values_composite:
  assumes "9223372036854775801 \<le> k" and "k < 2 ^ 63"
  shows "has_small_divisor k"
proof -
  have d: "has_small_divisor 9223372036854775801" "has_small_divisor 9223372036854775802"
    "has_small_divisor 9223372036854775803" "has_small_divisor 9223372036854775804"
    "has_small_divisor 9223372036854775805" "has_small_divisor 9223372036854775806"
    "has_small_divisor 9223372036854775807"
    unfolding has_small_divisor_def
    by (rule exI [of _ 157], simp) (rule exI [of _ 2], simp, rule exI [of _ 3], simp,
        rule exI [of _ 2], simp, rule exI [of _ 5], simp, rule exI [of _ 2], simp,
        rule exI [of _ 7], simp)
  from assms have "k < 9223372036854775808" by simp
  with assms(1) have "k = 9223372036854775801 \<or> k = 9223372036854775802 \<or>
      k = 9223372036854775803 \<or> k = 9223372036854775804 \<or> k = 9223372036854775805 \<or>
      k = 9223372036854775806 \<or> k = 9223372036854775807"
    by arith
  with d show ?thesis by auto
qed

text \<open>What \<^verbatim>\<open>is_prime\<close> returns, for every argument.\<close>

lemma is_prime_char:
  "is_prime n = Inr (if sint n < 2 \<or> has_small_divisor (sint n) then 0 else 1)"
proof (cases "sint n < 2")
  case True
  then show ?thesis by (simp add: is_prime_def word_sless_alt)
next
  case False
  then have start: "is_prime n = is_prime_loop n 2"
    by (simp add: is_prime_def word_sless_alt)
  show ?thesis
  proof (cases "has_small_divisor (sint n) \<or> sint n < sqrt_limit * sqrt_limit")
    case True
    have "\<forall>d. 2 \<le> d \<and> d < sint (2 :: c_llong) \<longrightarrow> \<not> d dvd sint n" by auto
    moreover have "(sint (2 :: c_llong) - 1) * (sint (2 :: c_llong) - 1) \<le> sint n"
      using False by simp
    moreover have "2 \<le> sint (2 :: c_llong)" by simp
    ultimately have "is_prime_loop n 2 = Inr (if has_small_divisor (sint n) then 0 else 1)"
      using True by (intro is_prime_loop_small)
    with start False show ?thesis by simp
  next
    case large: False
    with False have "prime_nat (nat (sint n))"
      using has_small_divisor_iff [of "sint n"] by simp
    moreover have "sint n < 9223372036854775801"
    proof (rule ccontr)
      assume "\<not> sint n < 9223372036854775801"
      moreover have "sint n < 2 ^ 63" using sint_lt [of n] by simp
      ultimately have "has_small_divisor (sint n)" by (intro top_values_composite) simp_all
      with large show False by simp
    qed
    moreover have "sint exit_index < sint n"
      using large by (simp add: exit_index_facts sqrt_limit_def)
    ultimately have "is_prime_loop n 2 = Inr 1"
      by (intro is_prime_loop_large) (simp_all add: exit_index_facts)
    with start False large show ?thesis by simp
  qed
qed

lemma is_prime_result:
  "is_prime n = Inr (if prime_nat (nat (sint n)) then 1 else 0)"
proof (cases "sint n < 2")
  case True
  then have "\<not> prime_nat (nat (sint n))" by (auto simp: prime_nat_def)
  with True show ?thesis by (simp add: is_prime_char)
next
  case False
  then have "has_small_divisor (sint n) \<longleftrightarrow> \<not> prime_nat (nat (sint n))"
    by (intro has_small_divisor_iff) simp
  with False show ?thesis by (simp add: is_prime_char)
qed

lemma is_prime_below_limit:
  assumes "sint n < sqrt_limit * sqrt_limit"
  shows "is_prime n = Inr (if prime_nat (nat (sint n)) then 1 else 0)"
  by (rule is_prime_result)

text \<open>
  The indices of \<open>visits\<close> are those of the function: from each of them the loop returns
  what the call returns. They go up by one from 2, each past the numbers that were tried
  and did not divide. Below the square of the limit each lies one past a number whose
  square is at most \<open>n\<close>.
\<close>

lemma visits_same_result: "visits n i \<Longrightarrow> is_prime n = is_prime_loop n i"
proof (induction rule: visits.induct)
  case first
  then show ?case by (simp add: is_prime_def)
next
  case (step i r i')
  have "is_prime_loop n i = is_prime_loop n i'"
    by (subst is_prime_loop.simps) (simp add: step.hyps)
  with step.IH show ?case by simp
qed

lemma visits_tried:
  "visits n i \<Longrightarrow> 2 \<le> sint n \<and> 2 \<le> sint i \<and> (\<forall>d. 2 \<le> d \<and> d < sint i \<longrightarrow> \<not> d dvd sint n)"
proof (induction rule: visits.induct)
  case first
  then show ?case by (auto simp: word_sless_alt)
next
  case (step i r i')
  from step.hyps(5) have in_inc: "in_llong (sint i + 1)" and i': "i' = i + 1"
    by (auto simp: inc_llong_def split: if_splits)
  have si: "sint i' = sint i + 1" unfolding i' using in_inc by (rule sint_inc_llong)
  from step.IH have npos: "0 \<le> sint n" and ipos: "0 < sint i" by simp_all
  from rem_llong_pos [OF npos ipos] step.hyps(3,4) have "\<not> sint i dvd sint n" by auto
  with step.IH si show ?case
    by (auto simp: less_le)
qed

lemma visits_bounds:
  "visits n i \<Longrightarrow> sint n < sqrt_limit * sqrt_limit \<Longrightarrow>
     2 \<le> sint i \<and> (sint i - 1) * (sint i - 1) \<le> sint n"
proof (induction rule: visits.induct)
  case first
  then have "2 \<le> sint n" by (simp add: word_sless_alt)
  then show ?case by simp
next
  case (step i r i')
  from step.IH step.prems have lo: "2 \<le> sint i" and prev: "(sint i - 1) * (sint i - 1) \<le> sint n"
    by simp_all
  have "sint i \<le> sqrt_limit"
  proof (rule ccontr)
    assume "\<not> sint i \<le> sqrt_limit"
    then have "sqrt_limit \<le> sint i - 1" by simp
    then have "sqrt_limit * sqrt_limit \<le> (sint i - 1) * (sint i - 1)"
      by (intro mult_mono) (auto simp: sqrt_limit_def)
    with prev step.prems show False by simp
  qed
  with lo have in_sq: "in_llong (sint i * sint i)" by (simp add: square_in_llong_iff)
  from step.hyps(5) have in_inc: "in_llong (sint i + 1)" and i': "i' = i + 1"
    by (auto simp: inc_llong_def split: if_splits)
  have "sint i * sint i \<le> sint n"
    using step.hyps(2) sint_mul_llong [OF in_sq] by (simp add: word_sle_eq)
  then show ?case using lo sint_inc_llong [OF in_inc] by (simp add: i')
qed

lemma visits_index_le:
  assumes "visits n i" and "sint n < (b + 1) * (b + 1)" and "0 \<le> b"
    and "sint n < sqrt_limit * sqrt_limit"
  shows "sint i \<le> b + 1"
proof (rule ccontr)
  assume "\<not> sint i \<le> b + 1"
  then have "b + 1 \<le> sint i - 1" by simp
  with assms(3) have "(b + 1) * (b + 1) \<le> (sint i - 1) * (sint i - 1)"
    by (intro mult_mono) auto
  with visits_bounds [OF assms(1,4)] assms(2) show False by simp
qed

section \<open>For loops\<close>

text \<open>
  The invariant rule: when the body, run under the invariant at \<open>i\<close>, either faults with
  a fault in \<open>F\<close> or establishes the invariant at \<open>i + 1\<close>, the loop either faults with a
  fault in \<open>F\<close> or ends with the invariant at its bound. With no fault allowed this is
  total correctness; a function of the state that no iteration changes is unchanged by the
  loop.
\<close>

lemma for_loop_rule:
  assumes "I lo st" and "lo \<le> hi"
    and "\<And>i s. lo \<le> i \<Longrightarrow> i < hi \<Longrightarrow> I i s \<Longrightarrow>
           (case body i s of Inl e \<Rightarrow> F e | Inr s' \<Rightarrow> I (Suc i) s')"
  shows "case for_loop lo hi body st of Inl e \<Rightarrow> F e | Inr s' \<Rightarrow> I hi s'"
  using assms
proof (induction "hi - lo" arbitrary: lo st)
  case 0
  then have "lo = hi" by simp
  with "0.prems"(1) show ?case by (subst for_loop.simps) simp
next
  case (Suc d)
  then have lt: "lo < hi" by simp
  note b = Suc.prems(3) [OF order_refl lt Suc.prems(1)]
  show ?case
  proof (cases "body lo st")
    case (Inl e)
    with b lt show ?thesis by (subst for_loop.simps) simp
  next
    case (Inr s')
    with b have s': "I (Suc lo) s'" by simp
    have "case for_loop (Suc lo) hi body s' of Inl e \<Rightarrow> F e | Inr s'' \<Rightarrow> I hi s''"
    proof (rule Suc.hyps(1))
      show "d = hi - Suc lo" using Suc.hyps(2) by simp
      show "I (Suc lo) s'" by (fact s')
      show "Suc lo \<le> hi" using lt by simp
      show "case body i s of Inl e \<Rightarrow> F e | Inr s' \<Rightarrow> I (Suc i) s'"
        if "Suc lo \<le> i" "i < hi" "I i s" for i s
        using that by (intro Suc.prems(3)) auto
    qed
    moreover have "for_loop lo hi body st = for_loop (Suc lo) hi body s'"
      using lt Inr by (subst for_loop.simps) simp
    ultimately show ?thesis by simp
  qed
qed

lemma for_loop_ok:
  assumes "I lo st" and "lo \<le> hi"
    and "\<And>i s. lo \<le> i \<Longrightarrow> i < hi \<Longrightarrow> I i s \<Longrightarrow> \<exists>s'. body i s = Inr s' \<and> I (Suc i) s'"
  shows "\<exists>s'. for_loop lo hi body st = Inr s' \<and> I hi s'"
proof -
  have "case for_loop lo hi body st of Inl e \<Rightarrow> False | Inr s' \<Rightarrow> I hi s'"
  proof (rule for_loop_rule [where I = I, OF assms(1,2)])
    fix i s assume "lo \<le> i" "i < hi" "I i s"
    from assms(3) [OF this] show "case body i s of Inl e \<Rightarrow> False | Inr s' \<Rightarrow> I (Suc i) s'"
      by auto
  qed
  then show ?thesis by (cases "for_loop lo hi body st") auto
qed

lemma for_loop_frame:
  assumes "for_loop lo hi body st = Inr st'"
    and "\<And>i s s'. body i s = Inr s' \<Longrightarrow> f s' = f s"
  shows "f st' = f st"
  using assms(1)
proof (induction "hi - lo" arbitrary: lo st)
  case 0
  then show ?case by (subst (asm) for_loop.simps) simp
next
  case (Suc d)
  then have lt: "lo < hi" by simp
  with Suc.prems obtain s where s: "body lo st = Inr s" "for_loop (Suc lo) hi body s = Inr st'"
    by (subst (asm) for_loop.simps) (auto split: sum.splits)
  have "f st' = f s"
    using Suc.hyps(2) by (intro Suc.hyps(1) [OF _ s(2)]) simp
  with assms(2) [OF s(1)] show ?case by simp
qed

section \<open>Loads and stores\<close>

text \<open>Reading and writing cells of allocated rows succeeds; a write changes the one cell.\<close>

lemma rows_okD:
  assumes "rows_ok n r m"
  shows "\<exists>rows. m = Some rows \<and> length rows = n \<and>
           (\<forall>i < r. \<exists>row. rows ! i = Some row \<and> length row = n)"
  using assms by (cases m) (auto simp: rows_ok_def split: option.splits)

lemma rows_okI:
  assumes "length rows = n"
    and "\<And>i. i < r \<Longrightarrow> \<exists>row. rows ! i = Some row \<and> length row = n"
  shows "rows_ok n r (Some rows)"
  unfolding rows_ok_def using assms by (fastforce split: option.splits)

lemma load2_ok:
  assumes "rows_ok n r m" "i < r" "r \<le> n" "j < n"
  shows "load2 m i j = Inr (entry m i j)"
proof -
  from rows_okD [OF assms(1)] obtain rows where rows: "m = Some rows" "length rows = n"
    "\<And>i. i < r \<Longrightarrow> \<exists>row. rows ! i = Some row \<and> length row = n"
    by blast
  from rows(3) [OF assms(2)] obtain row where "rows ! i = Some row" "length row = n" by blast
  with rows assms have "load2 m i j = Inr (row ! j)"
    by (simp add: load2_def load_def seq_def)
  then show ?thesis by (simp add: entry_def)
qed

lemma store2_ok:
  assumes "rows_ok n r m" "i < r" "r \<le> n" "j < n"
  shows "\<exists>m'. store2 m i j v = Inr m' \<and> rows_ok n r m' \<and>
           (\<forall>i' j'. entry m' i' j' = (if i' = i \<and> j' = j then v else entry m i' j'))"
proof -
  from rows_okD [OF assms(1)] obtain rows where rows: "m = Some rows" "length rows = n"
    "\<And>i. i < r \<Longrightarrow> \<exists>row. rows ! i = Some row \<and> length row = n"
    by blast
  from rows(3) [OF assms(2)] obtain row where row: "rows ! i = Some row" "length row = n"
    by blast
  define m' where "m' = Some (rows[i := Some (row[j := v])])"
  from rows row assms have st: "store2 m i j v = Inr m'"
    by (simp add: store2_def load_def store_def seq_def m'_def)
  have ok: "rows_ok n r m'"
    unfolding m'_def
  proof (rule rows_okI)
    show "length (rows[i := Some (row[j := v])]) = n" using rows(2) by simp
    show "\<exists>row'. rows[i := Some (row[j := v])] ! i' = Some row' \<and> length row' = n"
      if "i' < r" for i'
      using rows(3) [OF that] rows(2) row assms(2,3) by (cases "i' = i") auto
  qed
  have "entry m' i' j' = (if i' = i \<and> j' = j then v else entry m i' j')" for i' j'
    unfolding entry_def load2_def load_def seq_def m'_def rows(1)
    using rows(2) row assms
    by (auto simp: nth_list_update split: option.splits)
  with st ok show ?thesis by blast
qed

lemma store_row_ok:
  assumes "rows_ok n i m" "i < n" "length row = n"
  shows "\<exists>m'. store m i (Some row) = Inr m' \<and> rows_ok n (Suc i) m' \<and>
           (\<forall>i' j'. i' \<noteq> i \<longrightarrow> entry m' i' j' = entry m i' j')"
proof -
  from rows_okD [OF assms(1)] obtain rows where rows: "m = Some rows" "length rows = n"
    "\<And>i'. i' < i \<Longrightarrow> \<exists>row. rows ! i' = Some row \<and> length row = n"
    by blast
  define m' where "m' = Some (rows[i := Some row])"
  from rows assms have st: "store m i (Some row) = Inr m'"
    by (simp add: store_def m'_def)
  have ok: "rows_ok n (Suc i) m'"
    unfolding m'_def
  proof (rule rows_okI)
    show "length (rows[i := Some row]) = n" using rows(2) by simp
    show "\<exists>row'. rows[i := Some row] ! i' = Some row' \<and> length row' = n"
      if "i' < Suc i" for i'
    proof (cases "i' = i")
      case True
      with rows(2) assms(2,3) show ?thesis by simp
    next
      case False
      with that have "i' < i" by simp
      from rows(3) [OF this] False show ?thesis by simp
    qed
  qed
  have "entry m' i' j' = entry m i' j'" if "i' \<noteq> i" for i' j'
    unfolding entry_def load2_def load_def seq_def m'_def rows(1)
    using rows(2) that by (auto simp: nth_list_update split: option.splits)
  with st ok show ?thesis by blast
qed

section \<open>The triple loop\<close>

text \<open>
  One multiply-accumulate step adds one product to the partial sum of its cell. The
  entries are at most 9 in absolute value, so a partial sum of \<open>k\<close> products is at most
  \<open>81 * k\<close>, which for a side length up to 26512143 stays an \<^verbatim>\<open>int\<close>.
\<close>

lemma sint_mul_int:
  "in_int (sint a * sint b) \<Longrightarrow> sint (a * b :: c_int) = sint a * sint b"
  by (simp add: in_int_def sint_word_ariths signed_take_bit_int_eq_self_iff)

lemma sint_add_int:
  "in_int (sint a + sint b) \<Longrightarrow> sint (a + b :: c_int) = sint a + sint b"
  by (simp add: in_int_def sint_word_ariths signed_take_bit_int_eq_self_iff)

lemma in_int_abs: "\<bar>v\<bar> < 2 ^ 31 \<Longrightarrow> in_int v"
  by (simp add: in_int_def abs_less_iff)

lemma dot_Suc:
  "dot (Suc k) st i j = dot k st i j + sint (entry (A st) i k) * sint (entry (B st) k j)"
  by (simp add: dot_def)

lemma dot_0: "dot 0 st i j = 0"
  by (simp add: dot_def)

lemma dot_bound:
  assumes "small_entries n st" "i < n" "j < n" "k \<le> n"
  shows "\<bar>dot k st i j\<bar> \<le> int k * 81"
  using assms(4)
proof (induction k)
  case 0
  show ?case by (simp add: dot_0)
next
  case (Suc k)
  then have k: "k < n" by simp
  from assms(1,2) k have "\<bar>sint (entry (A st) i k)\<bar> \<le> 9"
    by (simp add: small_entries_def)
  moreover from assms(1,3) k have "\<bar>sint (entry (B st) k j)\<bar> \<le> 9"
    by (simp add: small_entries_def)
  ultimately have "\<bar>sint (entry (A st) i k)\<bar> * \<bar>sint (entry (B st) k j)\<bar> \<le> 9 * 9"
    by (intro mult_mono) auto
  then have "\<bar>sint (entry (A st) i k) * sint (entry (B st) k j)\<bar> \<le> 81"
    by (simp add: abs_mult)
  moreover from Suc k have "\<bar>dot k st i j\<bar> \<le> int k * 81" by simp
  ultimately show ?case by (simp add: dot_Suc)
qed

lemma mac_ok:
  assumes inv: "product_upto n st0 i j k s"
    and wf: "rows_ok n n (A st0)" "rows_ok n n (B st0)"
    and small: "small_entries n st0"
    and idx: "i < n" "j < n" "k < n"
    and size: "int n * 81 < 2 ^ 31"
  shows "\<exists>s'. mac i j k s = Inr s' \<and> product_upto n st0 i j (Suc k) s'"
proof -
  from inv have fr: "A s = A st0" "B s = B st0" and wfC: "rows_ok n n (C s)"
    and cur: "sint (entry (C s) i j) = dot k st0 i j"
    using idx by (simp_all add: product_upto_def)
  define a where "a = entry (A st0) i k"
  define b where "b = entry (B st0) k j"
  define c where "c = entry (C s) i j"
  have la: "load2 (A s) i k = Inr a"
    unfolding fr a_def using wf(1) idx by (intro load2_ok [where r = n]) auto
  have lb: "load2 (B s) k j = Inr b"
    unfolding fr b_def using wf(2) idx by (intro load2_ok [where r = n]) auto
  have lc: "load2 (C s) i j = Inr c"
    unfolding c_def using wfC idx by (intro load2_ok [where r = n]) auto
  have next_dot: "dot (Suc k) st0 i j = sint c + sint a * sint b"
    by (simp add: dot_Suc a_def b_def c_def cur)
  have bk: "\<bar>dot k st0 i j\<bar> \<le> int k * 81" "\<bar>dot (Suc k) st0 i j\<bar> \<le> int (Suc k) * 81"
    using small idx by (intro dot_bound [where n = n]; simp)+
  have "int k * 81 \<le> int n * 81" "int (Suc k) * 81 \<le> int n * 81"
    using idx by simp_all
  with bk size have r1: "\<bar>dot k st0 i j\<bar> < 2 ^ 31" and r2: "\<bar>dot (Suc k) st0 i j\<bar> < 2 ^ 31"
    by linarith+
  have "\<bar>sint a * sint b\<bar> \<le> 81"
  proof -
    from small idx have "\<bar>sint a\<bar> \<le> 9" "\<bar>sint b\<bar> \<le> 9"
      by (simp_all add: small_entries_def a_def b_def)
    then have "\<bar>sint a\<bar> * \<bar>sint b\<bar> \<le> 9 * 9" by (intro mult_mono) auto
    then show ?thesis by (simp add: abs_mult)
  qed
  then have in_p: "in_int (sint a * sint b)" by (intro in_int_abs) simp
  then have mul: "mul_int a b = Inr (a * b)" and sp: "sint (a * b) = sint a * sint b"
    by (simp_all add: mul_int_def sint_mul_int)
  have in_s: "in_int (sint c + sint (a * b))"
    using r2 unfolding sp next_dot [symmetric] by (rule in_int_abs)
  then have add: "add_int c (a * b) = Inr (c + a * b)"
    and ss: "sint (c + a * b) = dot (Suc k) st0 i j"
    by (simp_all add: add_int_def sint_add_int sp next_dot)
  from store2_ok [OF wfC idx(1) order_refl idx(2), of "c + a * b"]
  obtain m' where m': "store2 (C s) i j (c + a * b) = Inr m'" "rows_ok n n m'"
    "\<And>i' j'. entry m' i' j' = (if i' = i \<and> j' = j then c + a * b else entry (C s) i' j')"
    by blast
  have run: "mac i j k s = Inr (s\<lparr>C := m'\<rparr>)"
    by (simp add: mac_def seq_def la lb lc mul add m'(1))
  have "product_upto n st0 i j (Suc k) (s\<lparr>C := m'\<rparr>)"
    unfolding product_upto_def using inv m'(2,3) ss
    by (auto simp: product_upto_def)
  with run show ?thesis by blast
qed

text \<open>The three loops, from the innermost outward, each by the invariant rule.\<close>

lemma product_upto_next_cell:
  assumes "product_upto n st0 i j n s"
  shows "product_upto n st0 i (Suc j) 0 s"
  unfolding product_upto_def
proof (intro conjI allI impI)
  fix i' j' assume "i' < n" "j' < n"
  with assms show "sint (entry (C s) i' j') =
      (if i' < i \<or> i' = i \<and> j' < Suc j then dot n st0 i' j'
       else if i' = i \<and> j' = Suc j then dot 0 st0 i (Suc j) else 0)"
    by (auto simp: product_upto_def dot_0 less_Suc_eq)
qed (use assms in \<open>simp_all add: product_upto_def\<close>)

lemma product_upto_next_row:
  assumes "product_upto n st0 i n 0 s"
  shows "product_upto n st0 (Suc i) 0 0 s"
  unfolding product_upto_def
proof (intro conjI allI impI)
  fix i' j' assume "i' < n" "j' < n"
  with assms show "sint (entry (C s) i' j') =
      (if i' < Suc i \<or> i' = Suc i \<and> j' < 0 then dot n st0 i' j'
       else if i' = Suc i \<and> j' = 0 then dot 0 st0 (Suc i) 0 else 0)"
    by (auto simp: product_upto_def dot_0 less_Suc_eq)
qed (use assms in \<open>simp_all add: product_upto_def\<close>)

lemma multiply_cell:
  assumes "product_upto n st0 i j 0 s"
    and "rows_ok n n (A st0)" "rows_ok n n (B st0)" "small_entries n st0"
    and "i < n" "j < n" "int n * 81 < 2 ^ 31"
  shows "\<exists>s'. for_loop 0 n (\<lambda>k. mac i j k) s = Inr s' \<and> product_upto n st0 i (Suc j) 0 s'"
proof -
  have "\<exists>s'. for_loop 0 n (\<lambda>k. mac i j k) s = Inr s' \<and> product_upto n st0 i j n s'"
    using assms(1)
  proof (rule for_loop_ok [where I = "\<lambda>k. product_upto n st0 i j k"])
    fix k s1 assume "k < n" "product_upto n st0 i j k s1"
    with assms show "\<exists>s'. mac i j k s1 = Inr s' \<and> product_upto n st0 i j (Suc k) s'"
      by (intro mac_ok)
  qed simp
  then show ?thesis by (blast intro: product_upto_next_cell)
qed

lemma multiply_row:
  assumes "product_upto n st0 i 0 0 s"
    and "rows_ok n n (A st0)" "rows_ok n n (B st0)" "small_entries n st0"
    and "i < n" "int n * 81 < 2 ^ 31"
  shows "\<exists>s'. for_loop 0 n (\<lambda>j. for_loop 0 n (\<lambda>k. mac i j k)) s = Inr s' \<and>
              product_upto n st0 (Suc i) 0 0 s'"
proof -
  have "\<exists>s'. for_loop 0 n (\<lambda>j. for_loop 0 n (\<lambda>k. mac i j k)) s = Inr s' \<and>
              product_upto n st0 i n 0 s'"
    using assms(1)
  proof (rule for_loop_ok [where I = "\<lambda>j. product_upto n st0 i j 0"])
    fix j s1 assume "j < n" "product_upto n st0 i j 0 s1"
    with assms
    show "\<exists>s'. for_loop 0 n (\<lambda>k. mac i j k) s1 = Inr s' \<and> product_upto n st0 i (Suc j) 0 s'"
      by (intro multiply_cell)
  qed simp
  then show ?thesis by (blast intro: product_upto_next_row)
qed

lemma multiply_ok:
  assumes wf: "rows_ok n n (A st)" "rows_ok n n (B st)" "rows_ok n n (C st)"
    and small: "small_entries n st"
    and zero: "\<forall>i<n. \<forall>j<n. entry (C st) i j = 0"
    and size: "int n * 81 < 2 ^ 31"
  shows "\<exists>st'. multiply n st = Inr st' \<and> A st' = A st \<and> B st' = B st \<and>
           rows_ok n n (C st') \<and>
           (\<forall>i<n. \<forall>j<n. sint (entry (C st') i j) = dot n st i j)"
proof -
  have start: "product_upto n st 0 0 0 st"
    using wf(3) zero by (simp add: product_upto_def dot_0)
  have "\<exists>st'. multiply n st = Inr st' \<and> product_upto n st n 0 0 st'"
    unfolding multiply_def using start
  proof (rule for_loop_ok [where I = "\<lambda>i. product_upto n st i 0 0"])
    fix i s assume "i < n" "product_upto n st i 0 0 s"
    with wf small size
    show "\<exists>s'. for_loop 0 n (\<lambda>j. for_loop 0 n (\<lambda>k. mac i j k)) s = Inr s' \<and>
               product_upto n st (Suc i) 0 0 s'"
      by (intro multiply_row)
  qed simp
  then show ?thesis by (auto simp: product_upto_def)
qed

lemma mac_frame:
  assumes "mac i j k s = Inr s'"
  shows "A s' = A s \<and> B s' = B s \<and> mallocs s' = mallocs s \<and> rands s' = rands s"
  using assms by (auto simp: mac_def seq_def split: sum.splits)

lemma multiply_frame:
  assumes "multiply n st = Inr st'"
  shows "A st' = A st \<and> B st' = B st \<and> mallocs st' = mallocs st \<and> rands st' = rands st"
proof -
  let ?f = "\<lambda>s. (A s, B s, mallocs s, rands s)"
  have cell: "?f s' = ?f s" if "for_loop 0 n (\<lambda>k. mac i j k) s = Inr s'" for i j s s'
    using that by (rule for_loop_frame) (use mac_frame in auto)
  have row: "?f s' = ?f s"
    if "for_loop 0 n (\<lambda>j. for_loop 0 n (\<lambda>k. mac i j k)) s = Inr s'" for i s s'
    using that by (rule for_loop_frame) (use cell in auto)
  have "?f st' = ?f st"
    using assms unfolding multiply_def by (rule for_loop_frame) (use row in auto)
  then show ?thesis by simp
qed

text \<open>The sum over the integers, read back in the words.\<close>

lemma word_of_dot:
  "word_of_int (dot m st i j) = (\<Sum>k<m. entry (A st) i k * entry (B st) k j)"
  by (simp add: dot_def)

section \<open>Allocation and filling\<close>

text \<open>\<^verbatim>\<open>rand() % 10\<close> never faults, and its value lies between -9 and 9, between 0 and 9
  when \<^verbatim>\<open>rand\<close> answered no negative number.\<close>

lemma smod_10_bounds:
  fixes k :: int
  shows "\<bar>k smod 10\<bar> \<le> 9" and "0 \<le> k \<Longrightarrow> 0 \<le> k smod 10"
proof -
  have "\<bar>k\<bar> mod 10 < 10" by simp
  then have "\<bar>k\<bar> mod 10 \<le> 9" by linarith
  then show "\<bar>k smod 10\<bar> \<le> 9"
    by (simp add: signed_modulo_int_def abs_mult abs_sgn_eq)
  show "0 \<le> k \<Longrightarrow> 0 \<le> k smod 10"
    by (simp add: signed_modulo_int_def sgn_if)
qed

lemma sint_digit: "sint (digit r) = sint r smod 10"
proof -
  have "\<bar>sint r smod 10\<bar> \<le> 9" by (rule smod_10_bounds)
  then have "in_int (sint r smod 10)" by (intro in_int_abs) simp
  then have "- (2 ^ 31) \<le> sint r smod 10 \<and> sint r smod 10 < 2 ^ 31"
    by (simp add: in_int_def)
  then show ?thesis
    by (simp add: digit_def sint_sbintrunc' signed_take_bit_int_eq_self_iff)
qed

lemma rem_int_10: "rem_int r 10 = Inr (digit r)"
proof -
  have r: "- (2 ^ 31) \<le> sint r" "sint r < 2 ^ 31"
    using sint_ge [of r] sint_lt [of r] by simp_all
  have "\<bar>sint r sdiv 10\<bar> \<le> \<bar>sint r\<bar> div 10"
    by (simp add: signed_divide_int_def abs_mult abs_sgn_eq)
  also have "\<dots> \<le> 2 ^ 31 div 10" using r by (intro zdiv_mono1) auto
  finally have "in_int (sint r sdiv 10)" by (intro in_int_abs) simp
  then show ?thesis by (simp add: rem_int_def digit_def)
qed

text \<open>The fill statements with the calls of the library unfolded.\<close>

lemma fill_cell_unfold:
  "fill_cell env i j s =
     seq (store2 (A s) i j (digit (rand_val env (rands s)))) (\<lambda>a.
     seq (store2 (B s) i j (digit (rand_val env (Suc (rands s))))) (\<lambda>b.
     seq (store2 (C s) i j 0) (\<lambda>c.
     Inr (s\<lparr>rands := Suc (Suc (rands s)), A := a, B := b, C := c\<rparr>))))"
  by (cases s) (simp add: fill_cell_def rand_def rem_int_10 seq_def split: sum.splits)

lemma fill_row_unfold:
  "fill_row n env i s =
     seq (store (A s) i (if malloc_ok env (mallocs s)
                         then Some (replicate n (junk env)) else None)) (\<lambda>a.
     seq (store (B s) i (if malloc_ok env (Suc (mallocs s))
                         then Some (replicate n (junk env)) else None)) (\<lambda>b.
     seq (store (C s) i (if malloc_ok env (Suc (Suc (mallocs s)))
                         then Some (replicate n (junk env)) else None)) (\<lambda>c.
     for_loop 0 n (fill_cell env i)
       (s\<lparr>mallocs := Suc (Suc (Suc (mallocs s))), A := a, B := b, C := c\<rparr>))))"
  by (cases s) (simp add: fill_row_def malloc_def seq_def split: sum.splits)

text \<open>With the three rows of index \<open>i\<close> allocated, the cells of the row are filled one by
  one.\<close>

lemma fill_cell_ok:
  assumes inv: "filled_upto n env (Suc i) i j s" and idx: "i < n" "j < n"
  shows "\<exists>s'. fill_cell env i j s = Inr s' \<and> filled_upto n env (Suc i) i (Suc j) s'"
proof -
  from inv have wf: "rows_ok n (Suc i) (A s)" "rows_ok n (Suc i) (B s)" "rows_ok n (Suc i) (C s)"
    and cnt: "mallocs s = 3 + 3 * Suc i" "rands s = 2 * (i * n + j)"
    by (simp_all add: filled_upto_def)
  have r: "i < Suc i" "Suc i \<le> n" using idx by simp_all
  define v1 where "v1 = digit (rand_val env (rands s))"
  define v2 where "v2 = digit (rand_val env (Suc (rands s)))"
  from store2_ok [OF wf(1) r idx(2), of v1]
  obtain a where a: "store2 (A s) i j v1 = Inr a" "rows_ok n (Suc i) a"
    "\<And>i' j'. entry a i' j' = (if i' = i \<and> j' = j then v1 else entry (A s) i' j')"
    by blast
  from store2_ok [OF wf(2) r idx(2), of v2]
  obtain b where b: "store2 (B s) i j v2 = Inr b" "rows_ok n (Suc i) b"
    "\<And>i' j'. entry b i' j' = (if i' = i \<and> j' = j then v2 else entry (B s) i' j')"
    by blast
  from store2_ok [OF wf(3) r idx(2), of 0]
  obtain c where c: "store2 (C s) i j 0 = Inr c" "rows_ok n (Suc i) c"
    "\<And>i' j'. entry c i' j' = (if i' = i \<and> j' = j then 0 else entry (C s) i' j')"
    by blast
  define s' where "s' = s\<lparr>rands := Suc (Suc (rands s)), A := a, B := b, C := c\<rparr>"
  have run: "fill_cell env i j s = Inr s'"
    unfolding fill_cell_unfold v1_def [symmetric] v2_def [symmetric]
    by (simp add: seq_def a(1) b(1) c(1) s'_def)
  have v: "v1 = digit (rand_val env (2 * (i * n + j)))"
    "v2 = digit (rand_val env (2 * (i * n + j) + 1))"
    by (simp_all add: v1_def v2_def cnt)
  have "filled_upto n env (Suc i) i (Suc j) s'"
    unfolding filled_upto_def
  proof (intro conjI allI impI)
    fix i' j' assume h: "j' < n \<and> (i' < i \<or> i' = i \<and> j' < Suc j)"
    show "entry (A s') i' j' = digit (rand_val env (2 * (i' * n + j')))"
      using h inv by (auto simp: s'_def a(3) v filled_upto_def less_Suc_eq)
    show "entry (B s') i' j' = digit (rand_val env (2 * (i' * n + j') + 1))"
      using h inv by (auto simp: s'_def b(3) v filled_upto_def less_Suc_eq)
    show "entry (C s') i' j' = 0"
      using h inv by (auto simp: s'_def c(3) filled_upto_def less_Suc_eq)
  qed (simp_all add: s'_def cnt a(2) b(2) c(2))
  with run show ?thesis by blast
qed

lemma fill_cells_ok:
  assumes "filled_upto n env (Suc i) i 0 s" and "i < n"
  shows "\<exists>s'. for_loop 0 n (fill_cell env i) s = Inr s' \<and> filled_upto n env (Suc i) (Suc i) 0 s'"
proof -
  have "\<exists>s'. for_loop 0 n (fill_cell env i) s = Inr s' \<and> filled_upto n env (Suc i) i n s'"
    using assms(1)
  proof (rule for_loop_ok [where I = "\<lambda>j. filled_upto n env (Suc i) i j"])
    fix j s1 assume "j < n" "filled_upto n env (Suc i) i j s1"
    with assms(2) show "\<exists>s'. fill_cell env i j s1 = Inr s' \<and> filled_upto n env (Suc i) i (Suc j) s'"
      by (intro fill_cell_ok)
  qed simp
  moreover have "filled_upto n env (Suc i) (Suc i) 0 s'" if "filled_upto n env (Suc i) i n s'" for s'
    using that by (auto simp: filled_upto_def less_Suc_eq)
  ultimately show ?thesis by blast
qed

lemma fill_row_ok:
  assumes inv: "filled_upto n env i i 0 s" and idx: "i < n"
    and ok: "malloc_ok env (3 + 3 * i)" "malloc_ok env (4 + 3 * i)" "malloc_ok env (5 + 3 * i)"
  shows "\<exists>s'. fill_row n env i s = Inr s' \<and> filled_upto n env (Suc i) (Suc i) 0 s'"
proof -
  from inv have wf: "rows_ok n i (A s)" "rows_ok n i (B s)" "rows_ok n i (C s)"
    and cnt: "mallocs s = 3 + 3 * i" "rands s = 2 * (i * n)"
    by (simp_all add: filled_upto_def)
  define row where "row = replicate n (junk env)"
  have len: "length row = n" by (simp add: row_def)
  from store_row_ok [OF wf(1) idx len]
  obtain a where a: "store (A s) i (Some row) = Inr a" "rows_ok n (Suc i) a"
    "\<And>i' j'. i' \<noteq> i \<Longrightarrow> entry a i' j' = entry (A s) i' j'"
    by blast
  from store_row_ok [OF wf(2) idx len]
  obtain b where b: "store (B s) i (Some row) = Inr b" "rows_ok n (Suc i) b"
    "\<And>i' j'. i' \<noteq> i \<Longrightarrow> entry b i' j' = entry (B s) i' j'"
    by blast
  from store_row_ok [OF wf(3) idx len]
  obtain c where c: "store (C s) i (Some row) = Inr c" "rows_ok n (Suc i) c"
    "\<And>i' j'. i' \<noteq> i \<Longrightarrow> entry c i' j' = entry (C s) i' j'"
    by blast
  define s3 where "s3 = s\<lparr>mallocs := Suc (Suc (Suc (mallocs s))), A := a, B := b, C := c\<rparr>"
  have oks: "malloc_ok env (mallocs s)" "malloc_ok env (Suc (mallocs s))"
    "malloc_ok env (Suc (Suc (mallocs s)))"
    using ok by (simp_all add: cnt eval_nat_numeral)
  have run: "fill_row n env i s = for_loop 0 n (fill_cell env i) s3"
    unfolding fill_row_unfold row_def [symmetric]
    by (simp add: oks seq_def a(1) b(1) c(1) s3_def)
  have "filled_upto n env (Suc i) i 0 s3"
    using inv by (auto simp: filled_upto_def s3_def a b c cnt)
  from fill_cells_ok [OF this idx] run show ?thesis by simp
qed

text \<open>A row pointer that is null makes the first cell store of the row fail.\<close>

lemma store2_null_row:
  assumes "m = Some rows" "i < length rows" "rows ! i = None"
  shows "store2 m i j v = Inl NullDeref"
  using assms by (simp add: store2_def load_def store_def seq_def)

lemma store2_some_row:
  assumes "m = Some rows" "i < length rows" "rows ! i = Some row" "j < length row"
  shows "\<exists>m'. store2 m i j v = Inr m'"
  using assms by (simp add: store2_def load_def store_def seq_def)

lemma store_any_ok:
  assumes "rows_ok n i m" "i < n"
  shows "\<exists>rows. m = Some rows \<and> length rows = n \<and> store m i p = Inr (Some (rows[i := p]))"
  using rows_okD [OF assms(1)] assms(2) by (auto simp: store_def)

lemma fill_row_fail:
  assumes inv: "filled_upto n env i i 0 s" and idx: "i < n"
    and bad: "\<not> (malloc_ok env (3 + 3 * i) \<and> malloc_ok env (4 + 3 * i) \<and>
                 malloc_ok env (5 + 3 * i))"
  shows "fill_row n env i s = Inl NullDeref"
proof -
  from inv have wf: "rows_ok n i (A s)" "rows_ok n i (B s)" "rows_ok n i (C s)"
    and cnt: "mallocs s = 3 + 3 * i"
    by (simp_all add: filled_upto_def)
  define p where "p = (if malloc_ok env (mallocs s) then Some (replicate n (junk env)) else None)"
  define q where "q = (if malloc_ok env (Suc (mallocs s)) then Some (replicate n (junk env)) else None)"
  define r where "r = (if malloc_ok env (Suc (Suc (mallocs s))) then Some (replicate n (junk env)) else None)"
  from store_any_ok [OF wf(1) idx, of p] obtain ra
    where ra: "A s = Some ra" "length ra = n" "store (A s) i p = Inr (Some (ra[i := p]))" by blast
  from store_any_ok [OF wf(2) idx, of q] obtain rb
    where rb: "B s = Some rb" "length rb = n" "store (B s) i q = Inr (Some (rb[i := q]))" by blast
  from store_any_ok [OF wf(3) idx, of r] obtain rc
    where rc: "C s = Some rc" "length rc = n" "store (C s) i r = Inr (Some (rc[i := r]))" by blast
  define s3 where "s3 = s\<lparr>mallocs := Suc (Suc (Suc (mallocs s))),
     A := Some (ra[i := p]), B := Some (rb[i := q]), C := Some (rc[i := r])\<rparr>"
  have run: "fill_row n env i s = for_loop 0 n (fill_cell env i) s3"
    unfolding fill_row_unfold p_def [symmetric] q_def [symmetric] r_def [symmetric]
    by (simp add: seq_def ra(3) rb(3) rc(3) s3_def)
  from bad have some_null: "p = None \<or> q = None \<or> r = None"
    by (auto simp: p_def q_def r_def cnt eval_nat_numeral)
  have sa: "store2 (A s3) i 0 v = Inl NullDeref" if "p = None" for v
    using that ra idx by (intro store2_null_row [where rows = "ra[i := p]"]) (simp_all add: s3_def)
  have sa': "\<exists>a. store2 (A s3) i 0 v = Inr a" if "p \<noteq> None" for v
    using that ra idx
    by (intro store2_some_row [where rows = "ra[i := p]" and row = "replicate n (junk env)"])
      (auto simp: s3_def p_def split: if_splits)
  have sb: "store2 (B s3) i 0 v = Inl NullDeref" if "q = None" for v
    using that rb idx by (intro store2_null_row [where rows = "rb[i := q]"]) (simp_all add: s3_def)
  have sb': "\<exists>b. store2 (B s3) i 0 v = Inr b" if "q \<noteq> None" for v
    using that rb idx
    by (intro store2_some_row [where rows = "rb[i := q]" and row = "replicate n (junk env)"])
      (auto simp: s3_def q_def split: if_splits)
  have sc: "store2 (C s3) i 0 v = Inl NullDeref" if "r = None" for v
    using that rc idx by (intro store2_null_row [where rows = "rc[i := r]"]) (simp_all add: s3_def)
  have cell: "fill_cell env i 0 s3 = Inl NullDeref"
  proof (cases "p = None")
    case True
    then show ?thesis unfolding fill_cell_unfold by (simp add: seq_def sa)
  next
    case pn: False
    from sa' [OF pn] obtain a where a: "store2 (A s3) i 0 (digit (rand_val env (rands s3))) = Inr a"
      by blast
    show ?thesis
    proof (cases "q = None")
      case True
      then show ?thesis unfolding fill_cell_unfold by (simp add: seq_def a sb)
    next
      case qn: False
      from sb' [OF qn] obtain b
        where b: "store2 (B s3) i 0 (digit (rand_val env (Suc (rands s3)))) = Inr b"
        by blast
      from some_null pn qn have "r = None" by simp
      then show ?thesis unfolding fill_cell_unfold by (simp add: seq_def a b sc)
    qed
  qed
  from idx have "0 < n" by simp
  then have "for_loop 0 n (fill_cell env i) s3 = Inl NullDeref"
    by (subst for_loop.simps) (simp add: cell)
  with run show ?thesis by simp
qed

text \<open>The three tables: when they are allocated the filling starts as it should, and when
  one of them is null the first statement that stores a row pointer in it faults.\<close>

lemma alloc_tables_ok:
  assumes "malloc_ok env 0" "malloc_ok env 1" "malloc_ok env 2"
  shows "filled_upto n env 0 0 0 (alloc_tables n env)"
proof -
  have "rows_ok n 0 (Some (replicate n None))" by (simp add: rows_ok_def)
  with assms show ?thesis
    by (simp add: filled_upto_def alloc_tables_def malloc_def eval_nat_numeral)
qed

lemma alloc_tables_fail:
  assumes "\<not> (malloc_ok env 0 \<and> malloc_ok env 1 \<and> malloc_ok env 2)" and "0 < n"
  shows "fill_row n env 0 (alloc_tables n env) = Inl NullDeref"
proof -
  let ?s = "alloc_tables n env"
  have tables: "A ?s = (if malloc_ok env 0 then Some (replicate n None) else None)"
    "B ?s = (if malloc_ok env 1 then Some (replicate n None) else None)"
    "C ?s = (if malloc_ok env 2 then Some (replicate n None) else None)"
    by (simp_all add: alloc_tables_def malloc_def eval_nat_numeral)
  have st: "store (Some (replicate n None)) 0 p = Inr (Some ((replicate n None)[0 := p]))"
    for p :: int_ptr
    using assms(2) by (simp add: store_def)
  show ?thesis
  proof (cases "malloc_ok env 0")
    case False
    then show ?thesis unfolding fill_row_unfold by (simp add: tables seq_def store_def)
  next
    case a: True
    show ?thesis
    proof (cases "malloc_ok env 1")
      case False
      with a show ?thesis unfolding fill_row_unfold
        by (simp add: tables seq_def st) (simp add: store_def)
    next
      case b: True
      with a assms(1) have "\<not> malloc_ok env 2" by simp
      with a b show ?thesis unfolding fill_row_unfold
        by (simp add: tables seq_def st) (simp add: store_def)
    qed
  qed
qed

text \<open>
  The whole of the filling. When each of the \<open>3 * n + 3\<close> allocations succeeds it ends
  with every cell written. When one of them fails (and the side length is not 0) it ends
  by a null dereference: up to the failing allocation the invariant holds, and the row or
  table that was not allocated is stored through in the same iteration.
\<close>

lemma fill_ok:
  assumes "\<forall>c < 3 * n + 3. malloc_ok env c"
  shows "\<exists>s. fill n env = Inr s \<and> filled_upto n env n n 0 s"
  unfolding fill_def
proof (rule for_loop_ok [where I = "\<lambda>i. filled_upto n env i i 0"])
  show "filled_upto n env 0 0 0 (alloc_tables n env)"
    using assms by (intro alloc_tables_ok) simp_all
  show "\<exists>s'. fill_row n env i s = Inr s' \<and> filled_upto n env (Suc i) (Suc i) 0 s'"
    if "i < n" "filled_upto n env i i 0 s" for i s
    using that assms by (intro fill_row_ok) simp_all
qed simp

lemma fill_fail:
  assumes "\<exists>c < 3 * n + 3. \<not> malloc_ok env c" and "0 < n"
  shows "fill n env = Inl NullDeref"
proof (cases "malloc_ok env 0 \<and> malloc_ok env 1 \<and> malloc_ok env 2")
  case False
  then have "fill_row n env 0 (alloc_tables n env) = Inl NullDeref"
    using assms(2) by (rule alloc_tables_fail)
  with assms(2) show ?thesis
    unfolding fill_def by (subst for_loop.simps) simp
next
  case True
  let ?I = "\<lambda>i s. filled_upto n env i i 0 s \<and> (\<forall>c < 3 + 3 * i. malloc_ok env c)"
  have "case for_loop 0 n (fill_row n env) (alloc_tables n env) of
          Inl e \<Rightarrow> e = NullDeref | Inr s' \<Rightarrow> ?I n s'"
  proof (rule for_loop_rule [where I = ?I])
    have "c = 0 \<or> c = 1 \<or> c = 2" if "c < 3" for c :: nat using that by auto
    with True show "?I 0 (alloc_tables n env)"
      by (auto intro: alloc_tables_ok)
  next
    fix i s assume i: "i < n" and I: "?I i s"
    show "case fill_row n env i s of Inl e \<Rightarrow> e = NullDeref | Inr s' \<Rightarrow> ?I (Suc i) s'"
    proof (cases "malloc_ok env (3 + 3 * i) \<and> malloc_ok env (4 + 3 * i) \<and>
                 malloc_ok env (5 + 3 * i)")
      case False
      with I i have "fill_row n env i s = Inl NullDeref" by (intro fill_row_fail) simp_all
      then show ?thesis by simp
    next
      case ok: True
      with I i obtain s' where s': "fill_row n env i s = Inr s'"
        "filled_upto n env (Suc i) (Suc i) 0 s'"
        using fill_row_ok [of n env i s] by blast
      have "malloc_ok env c" if "c < 3 + 3 * Suc i" for c
      proof -
        from that have "c < 3 + 3 * i \<or> c = 3 + 3 * i \<or> c = 4 + 3 * i \<or> c = 5 + 3 * i"
          by auto
        with I ok show ?thesis by auto
      qed
      with s' show ?thesis by simp
    qed
  qed simp
  moreover have "\<not> (\<forall>c < 3 + 3 * n. malloc_ok env c)"
    using assms(1) by (simp add: add.commute)
  ultimately show ?thesis
    unfolding fill_def by (auto split: sum.splits)
qed

section \<open>Runs of the matrix benchmark\<close>

text \<open>The two phases one after the other, for the side length 500.\<close>

lemma N_pos: "0 < N" and N_size: "int N * 81 < 2 ^ 31"
  by (simp_all add: N_def)

lemma filled_small:
  assumes "filled_upto n env n n 0 s"
  shows "small_entries n s" and "\<forall>i<n. \<forall>j<n. entry (C s) i j = 0"
proof -
  have "\<bar>sint (digit r)\<bar> \<le> 9" for r by (simp add: sint_digit smod_10_bounds)
  with assms show "small_entries n s"
    by (simp add: small_entries_def filled_upto_def)
  from assms show "\<forall>i<n. \<forall>j<n. entry (C s) i j = 0"
    by (simp add: filled_upto_def)
qed

lemma run_task_ok:
  assumes "\<forall>c < 3 * N + 3. malloc_ok env c"
  shows "\<exists>st0 st. fill N env = Inr st0 \<and> multiply N st0 = Inr st \<and> run_task env = Inr st \<and>
           filled_upto N env N N 0 st0 \<and> A st = A st0 \<and> B st = B st0 \<and>
           rows_ok N N (C st) \<and>
           (\<forall>i<N. \<forall>j<N. sint (entry (C st) i j) = dot N st0 i j)"
proof -
  from fill_ok [OF assms] obtain st0 where st0: "fill N env = Inr st0" "filled_upto N env N N 0 st0"
    by blast
  from st0(2) have wf: "rows_ok N N (A st0)" "rows_ok N N (B st0)" "rows_ok N N (C st0)"
    by (simp_all add: filled_upto_def)
  from multiply_ok [OF wf filled_small [OF st0(2)] N_size]
  obtain st where st: "multiply N st0 = Inr st" "A st = A st0" "B st = B st0"
    "rows_ok N N (C st)" "\<forall>i<N. \<forall>j<N. sint (entry (C st) i j) = dot N st0 i j"
    by blast
  from st0(1) st(1) have "run_task env = Inr st" by (simp add: run_task_def seq_def)
  with st0 st show ?thesis by blast
qed

lemma run_task_fail:
  assumes "\<exists>c < 3 * N + 3. \<not> malloc_ok env c"
  shows "fill N env = Inl NullDeref" and "run_task env = Inl NullDeref"
    and "main_task env = \<lparr>stdout = [], status = Crashed NullDeref\<rparr>"
proof -
  show f: "fill N env = Inl NullDeref" using assms N_pos by (rule fill_fail)
  then show r: "run_task env = Inl NullDeref" by (simp add: run_task_def seq_def)
  then show "main_task env = \<lparr>stdout = [], status = Crashed NullDeref\<rparr>"
    by (simp add: main_task_def)
qed

lemma run_task_cases:
  "(\<forall>c < 3 * N + 3. malloc_ok env c) \<or> run_task env = Inl NullDeref"
  using run_task_fail(2) [of env] by blast

text \<open>The smallest run worth looking at: side length 2, the matrices
  \<open>((1, 2), (3, 4))\<close> and \<open>((5, 6), (7, 8))\<close>, the product \<open>((19, 22), (43, 50))\<close>.\<close>

lemma multiply_example_2x2:
  "seq (fill 2 env_2x2) (multiply 2) =
     Inr \<lparr>A = Some [Some [1, 2], Some [3, 4]], B = Some [Some [5, 6], Some [7, 8]],
          C = Some [Some [19, 22], Some [43, 50]], mallocs = 9, rands = 8\<rparr>"
  by (simp add: fill_def multiply_def alloc_tables_def fill_row_def fill_cell_def mac_def
      for_loop.simps malloc_def rand_def seq_def load_def store_def load2_def store2_def
      rem_int_def mul_int_def add_int_def in_int_def env_2x2_def
      signed_divide_int_def signed_modulo_int_def)
    (simp add: numeral_2_eq_2)

section \<open>The counting loop\<close>

text \<open>
  The counting loop from \<open>i\<close> to \<open>e\<close>, for bounds below the limit of \<^verbatim>\<open>is_prime\<close> and a
  counter that has room: it logs the candidates from \<open>i\<close> to \<open>e\<close> and adds the number of
  those that \<^verbatim>\<open>is_prime\<close> affirms.
\<close>

lemma count_loop_result:
  assumes "sint i \<le> sint e + 1"
    and "sint e < sqrt_limit * sqrt_limit"
    and "0 \<le> sint (count st)"
    and "sint (count st) + (sint e + 1 - sint i) < 2 ^ 31"
  shows "count_loop i e st =
           Inr \<lparr>count = count st +
                     word_of_nat (length (filter (\<lambda>n. is_prime n = Inr 1)
                                            (map word_of_int [sint i..sint e]))),
                tested = tested st @ map word_of_int [sint i..sint e]\<rparr>"
  using assms
proof (induction i e st rule: count_loop.induct)
  case (1 i e st)
  show ?case
  proof (cases "sint i \<le> sint e")
    case False
    then have "\<not> i \<le>s e" by (simp add: word_sle_eq)
    with False show ?thesis by (subst count_loop.simps) simp
  next
    case True
    then have cond: "i \<le>s e" by (simp add: word_sle_eq)
    define p :: c_int where "p = (if prime_nat (nat (sint i)) then 1 else 0)"
    have ip: "is_prime i = Inr p"
      unfolding p_def using True "1.prems"(2) by (intro is_prime_below_limit) simp
    define c where "c = (if p \<noteq> 0 then count st + 1 else count st)"
    have add: "(if p \<noteq> 0 then add_int (count st) 1 else Inr (count st)) = Inr c"
      using "1.prems"(3,4) True by (simp add: c_def add_int_def in_int_def)
    have sc: "sint c = sint (count st) + (if p \<noteq> 0 then 1 else 0)"
      using "1.prems"(3,4) True
      by (simp add: c_def sint_word_ariths signed_take_bit_int_eq_self_iff)
    have inc_ok: "in_llong (sint i + 1)"
      using True "1.prems"(2) sint_ge [of i]
      by (simp add: in_llong_def sqrt_limit_def)
    then have inc: "inc_llong i = Inr (i + 1)" by (simp add: inc_llong_def)
    have si: "sint (i + 1) = sint i + 1" using inc_ok by (rule sint_inc_llong)
    have cases_c: "(if p \<noteq> 0 then add_int (count st) 1 else Inr (count st)) = Inr c"
      by (fact add)
    have IH: "count_loop (i + 1) e \<lparr>count = c, tested = tested st @ [i]\<rparr> =
           Inr \<lparr>count = c +
                     word_of_nat (length (filter (\<lambda>n. is_prime n = Inr 1)
                                            (map word_of_int [sint (i + 1)..sint e]))),
                tested = (tested st @ [i]) @ map word_of_int [sint (i + 1)..sint e]\<rparr>"
      using "1.IH" [OF cond ip cases_c inc] True "1.prems" si sc
      by (simp split: if_splits)
    have unfold: "[sint i..sint e] = sint i # [sint (i + 1)..sint e]"
      using True si by (simp add: upto_rec1)
    have p01: "(is_prime i = Inr 1) = (p \<noteq> 0)"
      by (simp add: ip p_def)
    have "count_loop i e st = count_loop (i + 1) e \<lparr>count = c, tested = tested st @ [i]\<rparr>"
      by (subst count_loop.simps) (simp add: cond ip add inc)
    also note IH
    also have "c + word_of_nat (length (filter (\<lambda>n. is_prime n = Inr 1)
                                            (map word_of_int [sint (i + 1)..sint e])))
        = count st + word_of_nat (length (filter (\<lambda>n. is_prime n = Inr 1)
                                            (map word_of_int [sint i..sint e])))"
      by (simp add: unfold p01 c_def)
    also have "(tested st @ [i]) @ map word_of_int [sint (i + 1)..sint e]
        = tested st @ map word_of_int [sint i..sint e]"
      by (simp add: unfold)
    finally show ?thesis .
  qed
qed

lemma range_consts:
  "sint range_start = 90000000000" "sint range_end = 90000100000"
  by (simp_all add: range_start_def range_end_def)

lemma count_primes_result:
  "count_primes =
     Inr \<lparr>count = word_of_nat (length (filter (\<lambda>n. is_prime n = Inr 1)
                                     (map word_of_int [90000000000..90000100000]))),
          tested = map word_of_int [90000000000..90000100000]\<rparr>"
proof -
  have "count_loop range_start range_end \<lparr>count = 0, tested = []\<rparr> =
          Inr \<lparr>count = count \<lparr>count = 0, tested = []\<rparr> +
                  word_of_nat (length (filter (\<lambda>n. is_prime n = Inr 1)
                                (map word_of_int [sint range_start..sint range_end]))),
               tested = tested \<lparr>count = 0, tested = []\<rparr> @
                  map word_of_int [sint range_start..sint range_end]\<rparr>"
    by (rule count_loop_result) (simp_all add: range_consts sqrt_limit_def)
  then show ?thesis by (simp add: count_primes_def range_consts)
qed

lemma length_upto: "length [a..b] = nat (b - a + 1)"
proof (induction "nat (b - a + 1)" arbitrary: a)
  case 0
  then show ?case by simp
next
  case (Suc d)
  then have "a \<le> b" by simp
  then have "[a..b] = a # [a + 1..b]" by (simp add: upto_rec1)
  moreover have "length [a + 1..b] = nat (b - (a + 1) + 1)"
    using Suc.hyps(2) by (intro Suc.hyps(1)) simp
  ultimately show ?case using \<open>a \<le> b\<close> by simp
qed

lemma sint_map_word_of_int:
  assumes "- (2 ^ 63) \<le> a" "b < 2 ^ 63"
  shows "map sint (map word_of_int [a..b] :: c_llong list) = [a..b]"
proof -
  have "sint (word_of_int k :: c_llong) = k" if "k \<in> set [a..b]" for k
    using that assms by (intro sint_word_of_int_llong) (simp add: in_llong_def)
  then have "map (\<lambda>k. sint (word_of_int k :: c_llong)) [a..b] = [a..b]"
    by (intro map_idI)
  then show ?thesis by (simp add: comp_def)
qed

lemma sint_word_of_nat_int:
  assumes "m < 2 ^ 31"
  shows "sint (word_of_nat m :: c_int) = int m"
proof -
  have "sint (word_of_int (int m) :: c_int) = int m"
    by (subst sint_sbintrunc') (use assms in \<open>simp add: signed_take_bit_int_eq_self_iff\<close>)
  then show ?thesis by simp
qed

lemma sint_count:
  assumes "length xs < 2 ^ 31"
  shows "sint (word_of_nat (length (filter P xs)) :: c_int) = int (length (filter P xs))"
proof -
  have "length (filter P xs) \<le> length xs" by simp
  from this assms have "length (filter P xs) < 2 ^ 31" by (rule le_less_trans)
  then show ?thesis by (rule sint_word_of_nat_int)
qed

section \<open>Claims about the matrix benchmark\<close>

text \<open>
  C1. In the memory in which a run leaves the timed triple loop, for all \<open>i\<close> and \<open>j\<close>
  below 500, the cell \<open>C[i][j]\<close> holds the sum over \<open>k\<close> below 500 of
  \<open>A[i][k] * B[k][j]\<close>. The sum is taken in 32-bit words, and it is also the sum over the
  integers: no product and no partial sum leaves the range of \<^verbatim>\<open>int\<close>.
\<close>

theorem matrix_product:
  assumes "run_task env = Inr st"
  shows "\<exists>a b. \<forall>i<N. \<forall>j<N.
           load2 (A st) i j = Inr (a i j) \<and> load2 (B st) i j = Inr (b i j) \<and>
           load2 (C st) i j = Inr (\<Sum>k<N. a i k * b k j) \<and>
           sint (\<Sum>k<N. a i k * b k j) = (\<Sum>k<N. sint (a i k) * sint (b k j))"
proof -
  from assms run_task_cases [of env] have "\<forall>c < 3 * N + 3. malloc_ok env c" by auto
  from run_task_ok [OF this] assms obtain st0 where
    inv: "filled_upto N env N N 0 st0"
    and fr: "A st = A st0" "B st = B st0" and wfC: "rows_ok N N (C st)"
    and prod: "\<forall>i<N. \<forall>j<N. sint (entry (C st) i j) = dot N st0 i j"
    by auto
  from inv have wf: "rows_ok N N (A st)" "rows_ok N N (B st)"
    by (simp_all add: filled_upto_def fr)
  have "load2 (A st) i j = Inr (entry (A st) i j) \<and> load2 (B st) i j = Inr (entry (B st) i j) \<and>
        load2 (C st) i j = Inr (\<Sum>k<N. entry (A st) i k * entry (B st) k j) \<and>
        sint (\<Sum>k<N. entry (A st) i k * entry (B st) k j)
          = (\<Sum>k<N. sint (entry (A st) i k) * sint (entry (B st) k j))"
    if ij: "i < N" "j < N" for i j
  proof -
    have d: "dot N st0 i j = dot N st i j" by (simp add: dot_def fr)
    from prod ij have s: "sint (entry (C st) i j) = dot N st i j" by (simp add: d)
    then have "word_of_int (sint (entry (C st) i j)) = (word_of_int (dot N st i j) :: c_int)"
      by simp
    then have c: "entry (C st) i j = (\<Sum>k<N. entry (A st) i k * entry (B st) k j)"
      by (simp add: word_of_dot)
    from s c have "sint (\<Sum>k<N. entry (A st) i k * entry (B st) k j) = dot N st i j"
      by simp
    moreover have "load2 (C st) i j = Inr (entry (C st) i j)"
      using wfC ij by (intro load2_ok [where r = N]) auto
    moreover have "load2 (A st) i j = Inr (entry (A st) i j)"
      using wf(1) ij by (intro load2_ok [where r = N]) auto
    moreover have "load2 (B st) i j = Inr (entry (B st) i j)"
      using wf(2) ij by (intro load2_ok [where r = N]) auto
    ultimately show ?thesis by (simp add: c dot_def)
  qed
  then show ?thesis by blast
qed

theorem matrix_product_witness:
  "\<exists>st a b. run_task env_2x2 = Inr st \<and>
     load2 (A st) 0 0 = Inr (a (0 :: nat) (0 :: nat)) \<and>
     load2 (B st) 0 0 = Inr (b (0 :: nat) (0 :: nat)) \<and>
     load2 (C st) 0 0 = Inr (\<Sum>k<N. a 0 k * b k 0) \<and>
     sint (\<Sum>k<N. a 0 k * b k 0) = (\<Sum>k<N. sint (a 0 k) * sint (b k 0))"
proof -
  have "\<forall>c < 3 * N + 3. malloc_ok env_2x2 c" by (simp add: env_2x2_def)
  from run_task_ok [OF this] obtain st where run: "run_task env_2x2 = Inr st" by blast
  from matrix_product [OF run] obtain a b where
    cells: "\<forall>i<N. \<forall>j<N.
              load2 (A st) i j = Inr (a i j) \<and> load2 (B st) i j = Inr (b i j) \<and>
              load2 (C st) i j = Inr (\<Sum>k<N. a i k * b k j) \<and>
              sint (\<Sum>k<N. a i k * b k j) = (\<Sum>k<N. sint (a i k) * sint (b k j))"
    by blast
  from cells N_pos have
    "load2 (A st) 0 0 = Inr (a 0 0) \<and> load2 (B st) 0 0 = Inr (b 0 0) \<and>
     load2 (C st) 0 0 = Inr (\<Sum>k<N. a 0 k * b k 0) \<and>
     sint (\<Sum>k<N. a 0 k * b k 0) = (\<Sum>k<N. sint (a 0 k) * sint (b k 0))"
    by blast
  with run have at_origin: "run_task env_2x2 = Inr st \<and>
     load2 (A st) 0 0 = Inr (a 0 0) \<and> load2 (B st) 0 0 = Inr (b 0 0) \<and>
     load2 (C st) 0 0 = Inr (\<Sum>k<N. a 0 k * b k 0) \<and>
     sint (\<Sum>k<N. a 0 k * b k 0) = (\<Sum>k<N. sint (a 0 k) * sint (b k 0))"
    by (rule conjI)
  show ?thesis
    by (rule exI [where x = st], rule exI [where x = a], rule exI [where x = b], rule at_origin)
qed

text \<open>
  C3, as amended. The program checks no result of \<^verbatim>\<open>malloc\<close>. When one of its 1503
  allocations fails (three tables of row pointers, 1500 rows), it goes on until it stores
  through the null pointer, which it does while filling, before the timed loop: the run
  ends by that fault with nothing printed. Storing through a null pointer is undefined in
  C; that the run ends there is how the model reads it.
\<close>

theorem allocation_failure_is_null_store:
  assumes "\<exists>c < 3 * N + 3. \<not> malloc_ok env c"
  shows "fill N env = Inl NullDeref \<and> run_task env = Inl NullDeref \<and>
         main_task env = \<lparr>stdout = [], status = Crashed NullDeref\<rparr>"
  using run_task_fail [OF assms] by simp

theorem allocation_failure_is_null_store_witness:
  "\<not> malloc_ok (env_2x2\<lparr>malloc_ok := (\<lambda>k. k \<noteq> 1502)\<rparr>) 1502 \<and>
   fill N (env_2x2\<lparr>malloc_ok := (\<lambda>k. k \<noteq> 1502)\<rparr>) = Inl NullDeref \<and>
   run_task (env_2x2\<lparr>malloc_ok := (\<lambda>k. k \<noteq> 1502)\<rparr>) = Inl NullDeref \<and>
   main_task (env_2x2\<lparr>malloc_ok := (\<lambda>k. k \<noteq> 1502)\<rparr>)
     = \<lparr>stdout = [], status = Crashed NullDeref\<rparr>"
proof -
  have h: "\<exists>c < 3 * N + 3. \<not> malloc_ok (env_2x2\<lparr>malloc_ok := (\<lambda>k. k \<noteq> 1502)\<rparr>) c"
    by (simp add: N_def)
  from allocation_failure_is_null_store [OF h] show ?thesis by simp
qed

text \<open>
  C3, as stated, fails: the program does dereference the unallocated region. When the
  allocation of the table \<^verbatim>\<open>A\<close> fails, \<^verbatim>\<open>A\<close> is null, the statement
  \<^verbatim>\<open>A[0] = malloc(...)\<close> of line 16 stores through it, and that store is the fault by which
  the run ends.
\<close>

theorem null_table_is_dereferenced:
  "A (alloc_tables N env_first_null) = None \<and>
   store (A (alloc_tables N env_first_null)) 0 (Some (replicate N (junk env_first_null)))
     = Inl NullDeref \<and>
   fill_row N env_first_null 0 (alloc_tables N env_first_null) = Inl NullDeref \<and>
   status (main_task env_first_null) = Crashed NullDeref"
proof -
  have bad: "\<exists>c < 3 * N + 3. \<not> malloc_ok env_first_null c"
    by (auto simp: env_first_null_def)
  have "\<not> (malloc_ok env_first_null 0 \<and> malloc_ok env_first_null 1 \<and> malloc_ok env_first_null 2)"
    by (simp add: env_first_null_def)
  then have "fill_row N env_first_null 0 (alloc_tables N env_first_null) = Inl NullDeref"
    using N_pos by (rule alloc_tables_fail)
  moreover have a: "A (alloc_tables N env_first_null) = None"
    by (simp add: alloc_tables_def malloc_def env_first_null_def)
  moreover have "status (main_task env_first_null) = Crashed NullDeref"
    using run_task_fail(3) [OF bad] by simp
  ultimately show ?thesis by (simp add: store_def)
qed

text \<open>
  C6. When \<^verbatim>\<open>rand\<close> answers no negative number (what the C standard promises of it), no
  run ends by a signed overflow, and in the memory in which a run leaves the triple loop
  every entry of \<^verbatim>\<open>A\<close> and of \<^verbatim>\<open>B\<close> lies between 0 and 9 and every entry of \<^verbatim>\<open>C\<close>
  between 0 and 40500.
\<close>

theorem entries_bounded_no_overflow:
  assumes "\<forall>k. 0 \<le> sint (rand_val env k)"
  shows "run_task env \<noteq> Inl SignedOverflow \<and>
         (\<forall>st. run_task env = Inr st \<longrightarrow>
            (\<forall>i<N. \<forall>j<N.
               (\<exists>a. load2 (A st) i j = Inr a \<and> 0 \<le> sint a \<and> sint a \<le> 9) \<and>
               (\<exists>b. load2 (B st) i j = Inr b \<and> 0 \<le> sint b \<and> sint b \<le> 9) \<and>
               (\<exists>c. load2 (C st) i j = Inr c \<and> 0 \<le> sint c \<and> sint c \<le> 40500)))"
proof (cases "\<forall>c < 3 * N + 3. malloc_ok env c")
  case False
  with run_task_cases [of env] show ?thesis by simp
next
  case True
  from run_task_ok [OF True] obtain st0 st where
    run: "run_task env = Inr st" and inv: "filled_upto N env N N 0 st0"
    and fr: "A st = A st0" "B st = B st0" and wfC: "rows_ok N N (C st)"
    and prod: "\<forall>i<N. \<forall>j<N. sint (entry (C st) i j) = dot N st0 i j"
    by blast
  from inv have wf: "rows_ok N N (A st)" "rows_ok N N (B st)"
    by (simp_all add: filled_upto_def fr)
  have dig: "0 \<le> sint (digit (rand_val env k)) \<and> sint (digit (rand_val env k)) \<le> 9" for k
    using smod_10_bounds [of "sint (rand_val env k)"] assms
    by (simp add: sint_digit)
  have ea: "0 \<le> sint (entry (A st0) i j) \<and> sint (entry (A st0) i j) \<le> 9"
    and eb: "0 \<le> sint (entry (B st0) i j) \<and> sint (entry (B st0) i j) \<le> 9"
    if "i < N" "j < N" for i j
    using inv that dig by (simp_all add: filled_upto_def)
  have "(\<exists>a. load2 (A st) i j = Inr a \<and> 0 \<le> sint a \<and> sint a \<le> 9) \<and>
        (\<exists>b. load2 (B st) i j = Inr b \<and> 0 \<le> sint b \<and> sint b \<le> 9) \<and>
        (\<exists>c. load2 (C st) i j = Inr c \<and> 0 \<le> sint c \<and> sint c \<le> 40500)"
    if ij: "i < N" "j < N" for i j
  proof -
    have la: "load2 (A st) i j = Inr (entry (A st0) i j)"
      unfolding fr [symmetric] using wf(1) ij by (intro load2_ok [where r = N]) auto
    have lb: "load2 (B st) i j = Inr (entry (B st0) i j)"
      unfolding fr [symmetric] using wf(2) ij by (intro load2_ok [where r = N]) auto
    have lc: "load2 (C st) i j = Inr (entry (C st) i j)"
      using wfC ij by (intro load2_ok [where r = N]) auto
    have prod_le: "0 \<le> sint (entry (A st0) i k) * sint (entry (B st0) k j) \<and>
                sint (entry (A st0) i k) * sint (entry (B st0) k j) \<le> 81" if "k < N" for k
    proof -
      from ea [OF ij(1) that] eb [OF that ij(2)]
      have "sint (entry (A st0) i k) * sint (entry (B st0) k j) \<le> 9 * 9"
        by (intro mult_mono) auto
      with ea [OF ij(1) that] eb [OF that ij(2)] show ?thesis by simp
    qed
    have "0 \<le> dot N st0 i j" unfolding dot_def using prod_le by (intro sum_nonneg) simp
    moreover have "dot N st0 i j \<le> (\<Sum>k<N. 81)"
      unfolding dot_def using prod_le by (intro sum_mono) simp
    ultimately have "0 \<le> sint (entry (C st) i j) \<and> sint (entry (C st) i j) \<le> 40500"
      using prod ij by (simp add: N_def)
    with la lb lc ea [OF ij] eb [OF ij] show ?thesis by simp
  qed
  with run show ?thesis by simp
qed

theorem entries_bounded_no_overflow_witness:
  "run_task env_2x2 \<noteq> Inl SignedOverflow \<and>
   (\<exists>st. run_task env_2x2 = Inr st \<and>
     (\<exists>a. load2 (A st) 0 0 = Inr a \<and> 0 \<le> sint a \<and> sint a \<le> 9) \<and>
     (\<exists>b. load2 (B st) 0 0 = Inr b \<and> 0 \<le> sint b \<and> sint b \<le> 9) \<and>
     (\<exists>c. load2 (C st) 0 0 = Inr c \<and> 0 \<le> sint c \<and> sint c \<le> 40500))"
proof -
  have "\<forall>c < 3 * N + 3. malloc_ok env_2x2 c" by (simp add: env_2x2_def)
  from run_task_ok [OF this] obtain st where run: "run_task env_2x2 = Inr st" by blast
  have "0 \<le> sint (rand_val env_2x2 k)" for k
  proof -
    have "k < 8 \<Longrightarrow> k \<in> {0, 1, 2, 3, 4, 5, 6, 7}" by auto
    then show ?thesis by (auto simp: env_2x2_def)
  qed
  then have h: "\<forall>k. 0 \<le> sint (rand_val env_2x2 k)" by blast
  from entries_bounded_no_overflow [OF h] run N_pos show ?thesis by blast
qed

text \<open>
  C9. The timed triple loop writes only to \<^verbatim>\<open>C\<close>: whenever it runs to its end, from any
  memory, the matrices \<^verbatim>\<open>A\<close> and \<^verbatim>\<open>B\<close> afterwards are those from before, entry by
  entry.
\<close>

theorem multiply_writes_only_C:
  assumes "multiply N st = Inr st'"
  shows "A st' = A st \<and> B st' = B st \<and>
         (\<forall>i<N. \<forall>j<N. load2 (A st') i j = load2 (A st) i j \<and>
                        load2 (B st') i j = load2 (B st) i j)"
  using multiply_frame [OF assms] by simp

theorem multiply_writes_only_C_witness:
  "\<exists>st st'. fill N env_2x2 = Inr st \<and> multiply N st = Inr st' \<and>
     A st' = A st \<and> B st' = B st \<and>
     load2 (A st') 0 0 = load2 (A st) 0 0 \<and> load2 (B st') 0 0 = load2 (B st) 0 0"
proof -
  have "\<forall>c < 3 * N + 3. malloc_ok env_2x2 c" by (simp add: env_2x2_def)
  from run_task_ok [OF this] obtain st st' where
    h: "fill N env_2x2 = Inr st" "multiply N st = Inr st'" by blast
  from h multiply_writes_only_C [OF h(2)] N_pos show ?thesis by blast
qed

section \<open>Claims about the prime counter\<close>

text \<open>
  C2. \<^verbatim>\<open>is_prime n\<close> returns a value for every \<open>n\<close>: 0 when \<open>n < 2\<close> and when some \<open>d\<close> from
  2 upward with \<open>d * d \<le> n\<close> divides \<open>n\<close>, and 1 otherwise. So it returns 1 exactly when
  \<open>n\<close> is prime and 0 exactly when it is not. The loop is entered at 2 and then at each
  next integer, and it is entered at \<open>i\<close> only when no number from 2 up to \<open>i - 1\<close> divides
  \<open>n\<close>; from each such \<open>i\<close> it returns what the call returns. The product of the loop
  condition is the one of the machine: it is \<open>i * i\<close> itself for every \<open>i\<close> up to
  3037000499, which covers every \<open>n\<close> that is below \<open>3037000499\<^sup>2\<close> or not prime; for a
  prime \<open>n\<close> above that, the loop goes on through products that have wrapped around and
  leaves with 1 at the index 2759374635167858507 at the latest.
\<close>

theorem is_prime_trial_division:
  "is_prime n = Inr (if sint n < 2 \<or> has_small_divisor (sint n) then 0 else 1) \<and>
   (is_prime n = Inr 1 \<longleftrightarrow> prime_nat (nat (sint n))) \<and>
   (is_prime n = Inr 0 \<longleftrightarrow> \<not> prime_nat (nat (sint n))) \<and>
   (\<forall>i. visits n i \<longrightarrow>
      is_prime n = is_prime_loop n i \<and> 2 \<le> sint i \<and>
      (\<forall>d. 2 \<le> d \<and> d < sint i \<longrightarrow> \<not> d dvd sint n))"
proof (intro conjI allI impI)
  show "is_prime n = Inr (if sint n < 2 \<or> has_small_divisor (sint n) then 0 else 1)"
    by (rule is_prime_char)
  show "is_prime n = Inr 1 \<longleftrightarrow> prime_nat (nat (sint n))"
    by (simp add: is_prime_result)
  show "is_prime n = Inr 0 \<longleftrightarrow> \<not> prime_nat (nat (sint n))"
    by (simp add: is_prime_result)
next
  fix i assume v: "visits n i"
  then show "is_prime n = is_prime_loop n i" by (rule visits_same_result)
  from v show "2 \<le> sint i" by (simp add: visits_tried)
next
  fix i d assume "visits n i" and "2 \<le> d \<and> d < sint i"
  then show "\<not> d dvd sint n" using visits_tried [of n i] by blast
qed

theorem is_prime_trial_division_witness:
  "is_prime 97 = Inr 1 \<and> \<not> has_small_divisor (sint (97 :: c_llong)) \<and>
   is_prime 97 = is_prime_loop 97 2"
proof -
  have "is_prime 97 = Inr 1"
    by (simp add: is_prime_def is_prime_loop.simps word_sless_alt word_sle_eq
        rem_llong_def inc_llong_def in_llong_def signed_divide_int_def signed_modulo_int_def)
  moreover have "visits 97 2" by (rule visits.first) (simp add: word_sless_alt)
  ultimately show ?thesis using is_prime_trial_division [of 97] by (simp split: if_splits)
qed

text \<open>
  C4. The counting loop ends without a fault. The arguments of its calls of \<^verbatim>\<open>is_prime\<close>
  are, in the order of the calls, the integers from 90000000000 to 90000100000, each once
  and both ends included. The final counter is the number of those calls that returned 1,
  which is the number of integers of the range that \<^verbatim>\<open>is_prime\<close> affirms, and it is the
  number that \<^verbatim>\<open>main\<close> prints.
\<close>

theorem count_is_number_of_affirmed_candidates:
  "\<exists>st. count_primes = Inr st \<and>
     map sint (tested st) = [90000000000..90000100000] \<and>
     sint (count st) = int (length (filter (\<lambda>n. is_prime n = Inr 1) (tested st))) \<and>
     sint (count st) = int (card {k. 90000000000 \<le> k \<and> k \<le> 90000100000 \<and>
                                     is_prime (word_of_int k) = Inr 1}) \<and>
     (\<forall>env. \<exists>t. stdout (main_task2 env) =
        [(''Found %d primes in %.3f seconds\<newline>'', [IntArg (count st), DoubleArg t])])"
proof -
  let ?cands = "[90000000000..90000100000 :: int]"
  let ?ws = "map word_of_int ?cands :: c_llong list"
  let ?n = "length (filter (\<lambda>n. is_prime n = Inr 1) ?ws)"
  let ?st = "\<lparr>count = word_of_nat ?n, tested = ?ws\<rparr>"
  have run: "count_primes = Inr ?st" by (rule count_primes_result)
  have t: "map sint (tested ?st) = ?cands"
    using sint_map_word_of_int [of 90000000000 90000100000] by simp
  have "length ?ws < 2 ^ 31" by (simp add: length_upto)
  then have c: "sint (count ?st) = int ?n" using sint_count [of ?ws] by simp
  have "?n = length (filter (\<lambda>k. is_prime (word_of_int k) = Inr 1) ?cands)"
    by (simp add: filter_map comp_def)
  also have "\<dots> = card (set (filter (\<lambda>k. is_prime (word_of_int k) = Inr 1) ?cands))"
    by (intro distinct_card [symmetric] distinct_filter) simp
  also have "set (filter (\<lambda>k. is_prime (word_of_int k) = Inr 1) ?cands)
      = {k. 90000000000 \<le> k \<and> k \<le> 90000100000 \<and> is_prime (word_of_int k) = Inr 1}"
    by auto
  finally have card: "sint (count ?st) = int (card {k. 90000000000 \<le> k \<and> k \<le> 90000100000 \<and>
                                     is_prime (word_of_int k) = Inr 1})"
    using c by simp
  have out: "\<exists>t. stdout (main_task2 env) =
        [(''Found %d primes in %.3f seconds\<newline>'', [IntArg (count ?st), DoubleArg t])]" for env
    unfolding main_task2_def run by (simp add: Let_def)
  have c': "sint (count ?st) = int (length (filter (\<lambda>n. is_prime n = Inr 1) (tested ?st)))"
    using c by simp
  show ?thesis
    by (intro exI [of _ ?st] conjI allI) (fact run t c' card out)+
qed

text \<open>C5. \<^verbatim>\<open>is_prime\<close> returns 0 for 1, 1 for 2, 1 for 3 and 0 for 4.\<close>

theorem is_prime_known_values:
  "is_prime 1 = Inr 0 \<and> is_prime 2 = Inr 1 \<and> is_prime 3 = Inr 1 \<and> is_prime 4 = Inr 0"
proof (intro conjI)
  show "is_prime 1 = Inr 0"
    by (simp add: is_prime_def word_sless_alt)
  show "is_prime 2 = Inr 1"
    by (simp add: is_prime_def is_prime_loop.simps word_sless_alt word_sle_eq
        in_llong_def)
  show "is_prime 3 = Inr 1"
    by (simp add: is_prime_def is_prime_loop.simps word_sless_alt word_sle_eq
        in_llong_def)
  show "is_prime 4 = Inr 0"
    by (simp add: is_prime_def is_prime_loop.simps word_sless_alt word_sle_eq
        rem_llong_def inc_llong_def in_llong_def signed_divide_int_def signed_modulo_int_def)
qed

text \<open>
  C7. The prime counter prints the same count in every run: there is one number that,
  whatever the environment answers, is the count of the one line printed.
\<close>

theorem prime_count_deterministic:
  "\<exists>c. \<forall>env. \<exists>t. main_task2 env =
     \<lparr>stdout = [(''Found %d primes in %.3f seconds\<newline>'', [IntArg c, DoubleArg t])],
      status = Exited 0\<rparr>"
proof -
  from count_primes_result obtain st where st: "count_primes = Inr st" by blast
  have "\<exists>t. main_task2 env =
     \<lparr>stdout = [(''Found %d primes in %.3f seconds\<newline>'', [IntArg (count st), DoubleArg t])],
      status = Exited 0\<rparr>" for env
    unfolding main_task2_def st by (simp add: Let_def)
  then show ?thesis by blast
qed

text \<open>
  C8. A run of the matrix benchmark that exits with 0 has made exactly one call of
  \<^verbatim>\<open>printf\<close>, with the format \<^verbatim>\<open>Elapsed time: %.4f\<close> and a newline, and the difference of
  the two clock readings in seconds as argument. Every run of the prime counter exits
  with 0 after exactly one call of \<^verbatim>\<open>printf\<close>, with the format
  \<^verbatim>\<open>Found %d primes in %.3f seconds\<close> and a newline, the final counter and the difference of
  the two clock readings in seconds as arguments. What \<^verbatim>\<open>printf\<close> makes of a format is
  the library's part.
\<close>

theorem output_format:
  "(status (main_task env) = Exited 0 \<longrightarrow>
      stdout (main_task env) =
        [(''Elapsed time: %.4f\<newline>'',
          [DoubleArg (real_of_int (clock_val env 1 - clock_val env 0) /
                      real_of_int (CLOCKS_PER_SEC env))])]) \<and>
   (\<exists>st. count_primes = Inr st \<and> status (main_task2 env) = Exited 0 \<and>
      stdout (main_task2 env) =
        [(''Found %d primes in %.3f seconds\<newline>'',
          [IntArg (count st),
           DoubleArg (real_of_int (clock_val env 1 - clock_val env 0) /
                      real_of_int (CLOCKS_PER_SEC env))])])"
proof
  show "status (main_task env) = Exited 0 \<longrightarrow>
      stdout (main_task env) =
        [(''Elapsed time: %.4f\<newline>'',
          [DoubleArg (real_of_int (clock_val env 1 - clock_val env 0) /
                      real_of_int (CLOCKS_PER_SEC env))])]"
    by (cases "run_task env") (simp_all add: main_task_def Let_def)
  from count_primes_result obtain st where st: "count_primes = Inr st" by blast
  have "status (main_task2 env) = Exited 0 \<and>
      stdout (main_task2 env) =
        [(''Found %d primes in %.3f seconds\<newline>'',
          [IntArg (count st),
           DoubleArg (real_of_int (clock_val env 1 - clock_val env 0) /
                      real_of_int (CLOCKS_PER_SEC env))])]"
    unfolding main_task2_def st by (simp add: Let_def)
  with st show "\<exists>st. count_primes = Inr st \<and> status (main_task2 env) = Exited 0 \<and>
      stdout (main_task2 env) =
        [(''Found %d primes in %.3f seconds\<newline>'',
          [IntArg (count st),
           DoubleArg (real_of_int (clock_val env 1 - clock_val env 0) /
                      real_of_int (CLOCKS_PER_SEC env))])]"
    by blast
qed

theorem output_format_witness:
  "status (main_task env_2x2) = Exited 0 \<and>
   stdout (main_task env_2x2) = [(''Elapsed time: %.4f\<newline>'', [DoubleArg (1 / 400)])] \<and>
   (\<exists>st. count_primes = Inr st \<and> status (main_task2 env_2x2) = Exited 0 \<and>
      stdout (main_task2 env_2x2) =
        [(''Found %d primes in %.3f seconds\<newline>'',
          [IntArg (count st), DoubleArg (1 / 400)])])"
proof -
  have "\<forall>c < 3 * N + 3. malloc_ok env_2x2 c" by (simp add: env_2x2_def)
  from run_task_ok [OF this] obtain st where "run_task env_2x2 = Inr st" by blast
  then have ok: "status (main_task env_2x2) = Exited 0"
    by (simp add: main_task_def Let_def)
  have t: "real_of_int (clock_val env_2x2 1 - clock_val env_2x2 0) /
           real_of_int (CLOCKS_PER_SEC env_2x2) = 1 / 400"
    by (simp add: env_2x2_def)
  from ok output_format [of env_2x2] show ?thesis unfolding t by simp
qed

text \<open>
  C10. For every \<open>n\<close> up to 90000100000, \<^verbatim>\<open>is_prime n\<close> returns a value, without a fault.
  Every index \<open>i\<close> at which its loop is entered lies between 2 and 300001, the product
  \<open>i * i\<close> of the loop condition is at most 90000600001 and so a \<^verbatim>\<open>long long\<close>, and the
  increment takes \<open>i\<close> to \<open>i + 1\<close>.
\<close>

theorem is_prime_terminates_in_range:
  assumes "sint n \<le> 90000100000"
  shows "(\<exists>r. is_prime n = Inr r) \<and>
         (\<forall>i. visits n i \<longrightarrow>
            2 \<le> sint i \<and> sint i \<le> 300001 \<and> in_llong (sint i * sint i) \<and>
            sint i * sint i \<le> 90000600001 \<and>
            (\<forall>i'. inc_llong i = Inr i' \<longrightarrow> sint i' = sint i + 1))"
proof (intro conjI allI impI)
  from assms have "sint n < sqrt_limit * sqrt_limit" by (simp add: sqrt_limit_def)
  then show "\<exists>r. is_prime n = Inr r" by (simp add: is_prime_below_limit)
next
  fix i assume v: "visits n i"
  then show lo: "2 \<le> sint i" by (simp add: visits_tried)
  from assms have "sint n < (300000 + 1) * (300000 + 1)" by simp
  with v have "sint i \<le> 300000 + 1"
    using assms by (intro visits_index_le [of n i 300000]) (simp_all add: sqrt_limit_def)
  then show hi: "sint i \<le> 300001" by simp
  with lo have "sint i * sint i \<le> 300001 * 300001" by (intro mult_mono) auto
  then show "sint i * sint i \<le> 90000600001" by simp
  from hi lo show "in_llong (sint i * sint i)"
    by (simp add: square_in_llong_iff sqrt_limit_def)
next
  fix i i' assume "inc_llong i = Inr i'"
  then show "sint i' = sint i + 1"
    by (auto simp: inc_llong_def sint_inc_llong split: if_splits)
qed

theorem is_prime_terminates_in_range_witness:
  "sint (90000100000 :: c_llong) \<le> 90000100000 \<and>
   (\<exists>r. is_prime 90000100000 = Inr r) \<and>
   in_llong (sint (2 :: c_llong) * sint (2 :: c_llong)) \<and>
   (\<exists>i'. inc_llong 2 = Inr i' \<and> sint i' = sint (2 :: c_llong) + 1)"
proof -
  have h: "sint (90000100000 :: c_llong) \<le> 90000100000" by simp
  have v: "visits 90000100000 2" by (rule visits.first) (simp add: word_sless_alt)
  have i: "inc_llong 2 = Inr 3" by (simp add: inc_llong_def in_llong_def)
  from h v i is_prime_terminates_in_range [OF h] show ?thesis by blast
qed

end
